theory Spec2Isabelle
  imports Main
begin

section \<open>The paginated feed loader \<open>useAsyncLoadInfiniteScroll\<close>\<close>

text \<open>
  The composable keeps five reactive cells (\<open>items\<close>, \<open>isLoading\<close>, \<open>error\<close>,
  \<open>hasMore\<close>, \<open>currentPage\<close>) and mutates them from \<open>loadMore\<close>, \<open>reset\<close>,
  \<open>refetchAll\<close> and the two scroll checks. The cells are the fields of a record that each
  operation takes and returns. The repository holds two variants of the composable; the
  one modelled is the richer one (with \<open>maxPage\<close> and the viewport-fill check), and with
  \<open>maxPage = None\<close> its \<open>loadMore\<close> and \<open>refetchAll\<close> are the simpler variant's.

  Page numbers and pixel measures are JavaScript numbers; they are modelled as \<open>int\<close>
  (whole numbers inside the safe-integer range, where \<open>++\<close>, \<open>-\<close> and the
  comparisons are exact).

  \<open>loadMore\<close> and \<open>refetchAll\<close> are \<open>async\<close>. Each is modelled as an awaited
  call, from its first statement to its \<open>finally\<close>, with the answers of the Fetch Source
  taken where the \<open>await\<close> stands. Between the call of the Fetch Source and its answer
  \<open>isLoading\<close> is true, and then every other operation but \<open>reset\<close> returns at its
  first guard (lemma \<open>in_flight_unchanged\<close>); a \<open>reset()\<close> made during a fetch is outside
  the model.
\<close>

subsection \<open>Values crossing the await\<close>

text \<open>
  A JavaScript \<open>Error\<close> object, by its message, and a thrown value: the handlers test
  \<open>err instanceof Error\<close>, so a thrown value is either an \<open>Error\<close> or something else.
\<close>

datatype js_error = Error string

datatype thrown = ThrownError js_error | ThrownOther

text \<open>
  What \<open>await fetchItems(page)\<close> yields: the promise resolves to an array or to
  \<open>null\<close> (\<open>Resolved None\<close>), or the call throws or the promise rejects.
\<close>

datatype 'a fetched = Resolved "'a list option" | Rejected thrown

text \<open>How an awaited call of an \<open>async\<close> function of the loader settles.\<close>

datatype settled = Fulfilled | RejectedWith thrown

subsection \<open>Options and state\<close>

text \<open>
  The Fetch Source is supplied by the caller and may answer differently from call to
  call, so it is a function on a state \<open>'w\<close> of its own: it takes the page and that
  state, and returns what the await yields together with the new state.
\<close>

record ('a, 'w) options =
  fetchItems :: "int \<Rightarrow> 'w \<Rightarrow> 'a fetched \<times> 'w"
  threshold :: int
  initialPage :: int
  loadOnMount :: bool
  maxPage :: "int option"

text \<open>
  The five cells, the state of the Fetch Source, and the log of every invocation of the
  Fetch Source (page asked, outcome), oldest first. The log is not read by any
  operation; it is what the statements about invocations are about.
\<close>

record ('a, 'w) loader =
  items :: "'a list"
  isLoading :: bool
  error :: "js_error option"
  hasMore :: bool
  currentPage :: int
  source :: 'w
  calls :: "(int \<times> 'a fetched) list"

text \<open>The state right after the composable's setup (lines 55-59).\<close>

definition init :: "('a, 'w) options \<Rightarrow> 'w \<Rightarrow> ('a, 'w) loader" where
  "init opts w =
     \<lparr>items = [], isLoading = False, error = None, hasMore = True,
      currentPage = initialPage opts, source = w, calls = []\<rparr>"

text \<open>\<open>await fetchItems(page)\<close>: one invocation of the Fetch Source, logged.\<close>

definition await_fetchItems ::
  "('a, 'w) options \<Rightarrow> int \<Rightarrow> ('a, 'w) loader \<Rightarrow> 'a fetched \<times> ('a, 'w) loader" where
  "await_fetchItems opts page s =
     (case fetchItems opts page (source s) of
        (r, w') \<Rightarrow> (r, s\<lparr>source := w', calls := calls s @ [(page, r)]\<rparr>))"

text \<open>
  \<open>err instanceof Error ? err : new Error(msg)\<close>, the value both \<open>catch\<close> blocks
  store.
\<close>

definition caught :: "string \<Rightarrow> thrown \<Rightarrow> js_error" where
  "caught msg err = (case err of ThrownError e \<Rightarrow> e | ThrownOther \<Rightarrow> Error msg)"

text \<open>\<open>maxPage !== undefined && currentPage.value > maxPage\<close>\<close>

definition past_maxPage :: "('a, 'w) options \<Rightarrow> ('a, 'w) loader \<Rightarrow> bool" where
  "past_maxPage opts s = (case maxPage opts of None \<Rightarrow> False | Some m \<Rightarrow> currentPage s > m)"

subsection \<open>\<open>loadMore\<close>\<close>

text \<open>
  The \<open>try\<close> block of \<open>loadMore\<close> (lines 131-149). It returns the thrown value, if
  any, and the state at the point where the block was left. On a non-empty page the
  source also calls \<open>nextTick\<close> with the viewport-fill check: that only queues the
  check, which runs later as the operation \<open>checkIfNeedsMoreContent\<close> below.
\<close>

definition loadMore_try ::
  "('a, 'w) options \<Rightarrow> ('a, 'w) loader \<Rightarrow> thrown option \<times> ('a, 'w) loader" where
  "loadMore_try opts s =
     (case await_fetchItems opts (currentPage s) (s\<lparr>isLoading := True, error := None\<rparr>) of
        (Rejected err, s') \<Rightarrow> (Some err, s')
      | (Resolved None, s') \<Rightarrow> (None, s'\<lparr>hasMore := False\<rparr>)
      | (Resolved (Some newItems), s') \<Rightarrow>
          (if newItems = [] then (None, s'\<lparr>hasMore := False\<rparr>)
           else (None, s'\<lparr>items := items s' @ newItems, currentPage := currentPage s' + 1\<rparr>)))"

text \<open>
  An awaited call of \<open>loadMore\<close> (lines 121-157): the two guards, which return before
  the \<open>try\<close> statement is entered, then \<open>try\<close>, \<open>catch\<close> and \<open>finally\<close>.
\<close>

definition loadMore ::
  "('a, 'w) options \<Rightarrow> ('a, 'w) loader \<Rightarrow> settled \<times> ('a, 'w) loader" where
  "loadMore opts s =
     (if isLoading s \<or> \<not> hasMore s then (Fulfilled, s)
      else if past_maxPage opts s then (Fulfilled, s\<lparr>hasMore := False\<rparr>)
      else
        (case loadMore_try opts s of
           (None, s') \<Rightarrow> (Fulfilled, s'\<lparr>isLoading := False\<rparr>)
         | (Some err, s') \<Rightarrow>
             (Fulfilled,
              s'\<lparr>error := Some (caught ''An unknown error occurred'' err), isLoading := False\<rparr>)))"

subsection \<open>\<open>refetchAll\<close>\<close>

text \<open>
  The \<open>while\<close> loop of \<open>refetchAll\<close> (lines 190-200), with its variables
  \<open>allItems\<close> and \<open>page\<close>. It returns the thrown value, if any, the two variables and
  the state at the point where the loop was left: by its condition, by \<open>break\<close> after an
  empty or absent page, or by the throw.
\<close>

function refetch_loop ::
  "('a, 'w) options \<Rightarrow> int \<Rightarrow> 'a list \<Rightarrow> int \<Rightarrow> ('a, 'w) loader
     \<Rightarrow> thrown option \<times> 'a list \<times> int \<times> ('a, 'w) loader" where
  "refetch_loop opts targetPage allItems page s =
     (if page \<le> targetPage then
        (case await_fetchItems opts page s of
           (Rejected err, s') \<Rightarrow> (Some err, allItems, page, s')
         | (Resolved None, s') \<Rightarrow> (None, allItems, page, s'\<lparr>hasMore := False\<rparr>)
         | (Resolved (Some pageItems), s') \<Rightarrow>
             (if pageItems = [] then (None, allItems, page, s'\<lparr>hasMore := False\<rparr>)
              else refetch_loop opts targetPage (allItems @ pageItems) (page + 1) s'))
      else (None, allItems, page, s))"
  by pat_completeness auto
termination
  by (relation "measure (\<lambda>(opts, targetPage, allItems, page, s). nat (targetPage + 1 - page))")
    auto

declare refetch_loop.simps [simp del]

text \<open>
  The \<open>try\<close> block of \<open>refetchAll\<close> (lines 181-220), entered with \<open>targetPage\<close>
  already computed. The first branch of the final \<open>if\<close> assigns \<open>false\<close> to a cell that
  is false; it is kept as the source has it. The closing \<open>nextTick\<close> only queues the
  viewport-fill check.
\<close>

definition refetchAll_try ::
  "('a, 'w) options \<Rightarrow> int \<Rightarrow> ('a, 'w) loader \<Rightarrow> thrown option \<times> ('a, 'w) loader" where
  "refetchAll_try opts targetPage s =
     (case refetch_loop opts targetPage [] (initialPage opts)
             (s\<lparr>isLoading := True, error := None, items := []\<rparr>) of
        (Some err, allItems, page, s') \<Rightarrow> (Some err, s')
      | (None, allItems, page, s') \<Rightarrow>
          (let s'' = s'\<lparr>items := allItems, currentPage := page\<rparr>
           in if \<not> hasMore s'' \<and> page \<le> targetPage then (None, s''\<lparr>hasMore := False\<rparr>)
              else if page > targetPage then (None, s''\<lparr>hasMore := True\<rparr>)
              else (None, s'')))"

text \<open>An awaited call of \<open>refetchAll\<close> (lines 175-228).\<close>

definition refetchAll ::
  "('a, 'w) options \<Rightarrow> ('a, 'w) loader \<Rightarrow> settled \<times> ('a, 'w) loader" where
  "refetchAll opts s =
     (if isLoading s then (Fulfilled, s)
      else
        (case refetchAll_try opts (currentPage s - 1) s of
           (None, s') \<Rightarrow> (Fulfilled, s'\<lparr>isLoading := False\<rparr>)
         | (Some err, s') \<Rightarrow>
             (Fulfilled,
              s'\<lparr>error := Some (caught ''An error occurred while refetching items'' err),
                 isLoading := False\<rparr>)))"

subsection \<open>The scroll checks and \<open>reset\<close>\<close>

text \<open>
  The three measures the checks read from the observed element. \<open>targetRef.value\<close> is
  an element or \<open>null\<close>.
\<close>

record element =
  scrollTop :: int
  scrollHeight :: int
  clientHeight :: int

text \<open>
  \<open>checkScroll\<close> (lines 62-79) and \<open>checkIfNeedsMoreContent\<close> (lines 82-93). Both call
  \<open>loadMore()\<close> without awaiting it; here the load they start runs to its end.
\<close>

definition checkScroll ::
  "('a, 'w) options \<Rightarrow> element option \<Rightarrow> ('a, 'w) loader \<Rightarrow> ('a, 'w) loader" where
  "checkScroll opts targetRef s =
     (case targetRef of
        None \<Rightarrow> s
      | Some el \<Rightarrow>
          (if isLoading s \<or> \<not> hasMore s then s
           else if past_maxPage opts s then s\<lparr>hasMore := False\<rparr>
           else if scrollHeight el - scrollTop el - clientHeight el < threshold opts
                then snd (loadMore opts s)
                else s))"

definition checkIfNeedsMoreContent ::
  "('a, 'w) options \<Rightarrow> element option \<Rightarrow> ('a, 'w) loader \<Rightarrow> ('a, 'w) loader" where
  "checkIfNeedsMoreContent opts targetRef s =
     (case targetRef of
        None \<Rightarrow> s
      | Some el \<Rightarrow>
          (if isLoading s \<or> \<not> hasMore s then s
           else if scrollHeight el \<le> clientHeight el then snd (loadMore opts s)
           else s))"

text \<open>
  \<open>reset\<close> (lines 160-169): the four assignments, then the load it starts when
  \<open>loadOnMount\<close> is set, run to its end.
\<close>

definition reset_cells :: "('a, 'w) options \<Rightarrow> ('a, 'w) loader \<Rightarrow> ('a, 'w) loader" where
  "reset_cells opts s =
     s\<lparr>items := [], currentPage := initialPage opts, hasMore := True, error := None\<rparr>"

definition reset :: "('a, 'w) options \<Rightarrow> ('a, 'w) loader \<Rightarrow> ('a, 'w) loader" where
  "reset opts s =
     (if loadOnMount opts then snd (loadMore opts (reset_cells opts s))
      else reset_cells opts s)"

subsection \<open>Sequences of operations\<close>

text \<open>
  What a host can do to a loader instance: call one of the three exported actions, or
  let a scroll event or a queued \<open>nextTick\<close> callback run a check against the element's
  measures at that moment. Each operation runs to its end before the next one starts.
\<close>

datatype op =
    LoadMore
  | RefetchAll
  | Reset
  | CheckScroll "element option"
  | CheckIfNeedsMoreContent "element option"

fun exec :: "('a, 'w) options \<Rightarrow> op \<Rightarrow> ('a, 'w) loader \<Rightarrow> ('a, 'w) loader" where
  "exec opts LoadMore s = snd (loadMore opts s)"
| "exec opts RefetchAll s = snd (refetchAll opts s)"
| "exec opts Reset s = reset opts s"
| "exec opts (CheckScroll targetRef) s = checkScroll opts targetRef s"
| "exec opts (CheckIfNeedsMoreContent targetRef) s = checkIfNeedsMoreContent opts targetRef s"

fun run :: "('a, 'w) options \<Rightarrow> op list \<Rightarrow> ('a, 'w) loader \<Rightarrow> ('a, 'w) loader" where
  "run opts [] s = s"
| "run opts (x # xs) s = run opts xs (exec opts x s)"

text \<open>The invocations of the Fetch Source made between state \<open>s\<close> and a later state.\<close>

definition new_calls ::
  "('a, 'w) loader \<Rightarrow> ('a, 'w) loader \<Rightarrow> (int \<times> 'a fetched) list" where
  "new_calls s s' = drop (length (calls s)) (calls s')"

text \<open>The outcomes of an invocation that the loader tells apart.\<close>

fun returned_nonempty :: "'a fetched \<Rightarrow> bool" where
  "returned_nonempty (Resolved (Some xs)) = (xs \<noteq> [])"
| "returned_nonempty _ = False"

fun returned_nothing :: "'a fetched \<Rightarrow> bool" where
  "returned_nothing (Resolved None) = True"
| "returned_nothing (Resolved (Some xs)) = (xs = [])"
| "returned_nothing (Rejected err) = False"

fun page_of :: "'a fetched \<Rightarrow> 'a list" where
  "page_of (Resolved (Some xs)) = xs"
| "page_of _ = []"

fun rejected :: "'a fetched \<Rightarrow> bool" where
  "rejected (Rejected err) = True"
| "rejected (Resolved r) = False"

text \<open>
  The operations that can start a load but never rebuild or clear the feed: an explicit
  \<open>loadMore()\<close> and the two checks.
\<close>

fun is_load :: "op \<Rightarrow> bool" where
  "is_load LoadMore = True"
| "is_load (CheckScroll targetRef) = True"
| "is_load (CheckIfNeedsMoreContent targetRef) = True"
| "is_load RefetchAll = False"
| "is_load Reset = False"

subsection \<open>\<open>throttle\<close>\<close>

text \<open>
  \<open>throttle(func, limit)\<close> (lines 96-115) returns a closure over two variables,
  \<open>lastFunc\<close> (a timer id) and \<open>lastRan\<close> (a clock reading), both undefined at first.
  The closure's state is a record: the two variables, the timeouts it has set with
  \<open>window.setTimeout\<close> that are still pending (id to delay), the next id
  \<open>setTimeout\<close> hands out, the state \<open>func\<close> acts on, and the log of the clock
  readings at which \<open>func\<close> was applied. The log is read by no handler.

  Time enters as the values \<open>Date.now()\<close> returns, which are inputs of the handlers.
  \<open>func\<close> takes what it reads from the page when it is applied (for \<open>checkScroll\<close>,
  \<open>targetRef.value\<close> and its measures) as its first argument.
\<close>

record 'st throttled =
  lastFunc :: "nat option"
  lastRan :: "int option"
  timeouts :: "nat \<Rightarrow> int option"
  next_id :: nat
  target :: 'st
  applied :: "int list"

definition throttle :: "'st \<Rightarrow> 'st throttled" where
  "throttle st =
     \<lparr>lastFunc = None, lastRan = None, timeouts = (\<lambda>i. None), next_id = 1,
      target = st, applied = []\<rparr>"

text \<open>\<open>clearTimeout(lastFunc)\<close>: nothing happens for \<open>undefined\<close> or an id not pending.\<close>

definition clearTimeout :: "nat option \<Rightarrow> 'st throttled \<Rightarrow> 'st throttled" where
  "clearTimeout h th =
     (case h of None \<Rightarrow> th | Some i \<Rightarrow> th\<lparr>timeouts := (timeouts th)(i := None)\<rparr>)"

text \<open>
  \<open>lastFunc = window.setTimeout(callback, delay)\<close>: a fresh id, pending with its delay.
\<close>

definition setTimeout :: "int \<Rightarrow> 'st throttled \<Rightarrow> 'st throttled" where
  "setTimeout delay th =
     th\<lparr>lastFunc := Some (next_id th),
        timeouts := (timeouts th)(next_id th \<mapsto> delay),
        next_id := Suc (next_id th)\<rparr>"

text \<open>
  \<open>func.apply(this, args); lastRan = Date.now()\<close>, where \<open>at\<close> is the reading the
  application is logged under and \<open>now\<close> the reading stored.
\<close>

definition apply_func ::
  "('e \<Rightarrow> 'st \<Rightarrow> 'st) \<Rightarrow> 'e \<Rightarrow> int \<Rightarrow> int \<Rightarrow> 'st throttled \<Rightarrow> 'st throttled" where
  "apply_func func page at now th =
     th\<lparr>target := func page (target th), lastRan := Some now, applied := applied th @ [at]\<rparr>"

text \<open>
  A call of the returned closure (lines 100-114); \<open>now\<close> is the one reading of
  \<open>Date.now()\<close> the call makes: after \<open>func\<close> in the first branch, for the delay in the
  second. \<open>!lastRan\<close> holds for \<open>undefined\<close> and for the number 0.
\<close>

definition throttled_call ::
  "('e \<Rightarrow> 'st \<Rightarrow> 'st) \<Rightarrow> int \<Rightarrow> 'e \<Rightarrow> int \<Rightarrow> 'st throttled \<Rightarrow> 'st throttled" where
  "throttled_call func limit page now th =
     (case lastRan th of
        None \<Rightarrow> apply_func func page now now th
      | Some ran_at \<Rightarrow>
          (if ran_at = 0 then apply_func func page now now th
           else setTimeout (limit - (now - ran_at)) (clearTimeout (lastFunc th) th)))"

text \<open>
  The callback given to \<open>setTimeout\<close> (lines 107-112), run for the timeout \<open>i\<close> if it
  is still pending. \<open>now\<close> is the reading in its condition, \<open>now'\<close> the one stored
  after \<open>func\<close>. With \<open>lastRan\<close> undefined the difference is \<open>NaN\<close> and the condition
  fails.
\<close>

definition timeout_callback ::
  "('e \<Rightarrow> 'st \<Rightarrow> 'st) \<Rightarrow> int \<Rightarrow> nat \<Rightarrow> 'e \<Rightarrow> int \<Rightarrow> int \<Rightarrow> 'st throttled
     \<Rightarrow> 'st throttled" where
  "timeout_callback func limit i page now now' th =
     (case timeouts th i of
        None \<Rightarrow> th
      | Some delay \<Rightarrow>
          (case lastRan th of
             None \<Rightarrow> th\<lparr>timeouts := (timeouts th)(i := None)\<rparr>
           | Some ran_at \<Rightarrow>
               (if now - ran_at \<ge> limit
                then apply_func func page now now' (th\<lparr>timeouts := (timeouts th)(i := None)\<rparr>)
                else th\<lparr>timeouts := (timeouts th)(i := None)\<rparr>)))"

text \<open>
  What happens to the closure over time: a scroll event calls it, or the browser runs a
  timeout. Each event carries the clock readings its handler makes.
\<close>

datatype 'e event = Scroll 'e int | Timeout nat 'e int int

fun handle ::
  "('e \<Rightarrow> 'st \<Rightarrow> 'st) \<Rightarrow> int \<Rightarrow> 'e event \<Rightarrow> 'st throttled \<Rightarrow> 'st throttled" where
  "handle func limit (Scroll page now) th = throttled_call func limit page now th"
| "handle func limit (Timeout i page now now') th = timeout_callback func limit i page now now' th"

fun play ::
  "('e \<Rightarrow> 'st \<Rightarrow> 'st) \<Rightarrow> int \<Rightarrow> 'e event list \<Rightarrow> 'st throttled \<Rightarrow> 'st throttled" where
  "play func limit [] th = th"
| "play func limit (ev # evs) th = play func limit evs (handle func limit ev th)"

text \<open>
  The clock does not run backwards: every reading of a trace is at least \<open>t\<close> and at
  least the one before it.
\<close>

fun chronological :: "int \<Rightarrow> 'e event list \<Rightarrow> bool" where
  "chronological t [] = True"
| "chronological t (Scroll page now # evs) = (t \<le> now \<and> chronological now evs)"
| "chronological t (Timeout i page now now' # evs) =
     (t \<le> now \<and> now \<le> now' \<and> chronological now' evs)"

text \<open>Consecutive entries of a list of readings are at least \<open>d\<close> apart.\<close>

fun spaced :: "int \<Rightarrow> int list \<Rightarrow> bool" where
  "spaced d [] = True"
| "spaced d [x] = True"
| "spaced d (x # y # ys) = (d \<le> y - x \<and> spaced d (y # ys))"

text \<open>\<open>throttledCheckScroll = throttle(checkScroll, 200)\<close> (line 118), run on a trace.\<close>

definition throttledCheckScroll ::
  "('a, 'w) options \<Rightarrow> element option event list \<Rightarrow> ('a, 'w) loader throttled
     \<Rightarrow> ('a, 'w) loader throttled" where
  "throttledCheckScroll opts evs th = play (checkScroll opts) 200 evs th"

subsection \<open>A Fetch Source for examples\<close>

text \<open>
  A Fetch Source that answers from a script, whatever the page: its state is the list
  of outcomes still to give, and once the script is used up it resolves to \<open>null\<close>.
\<close>

definition scripted :: "int \<Rightarrow> 'a fetched list \<Rightarrow> 'a fetched \<times> 'a fetched list" where
  "scripted page w = (case w of [] \<Rightarrow> (Resolved None, []) | r # rs \<Rightarrow> (r, rs))"

text \<open>The options with every default of lines 46-52, over the scripted source.\<close>

definition defaults :: "('a, 'a fetched list) options" where
  "defaults =
     \<lparr>fetchItems = scripted, threshold = 200, initialPage = 1, loadOnMount = True,
      maxPage = None\<rparr>"

text \<open>
  The state after pages 1 and 2 were loaded, \<open>[a, b]\<close> and \<open>[c]\<close>, with \<open>w\<close> what
  is left of the script.
\<close>

definition two_pages_loaded :: "string fetched list \<Rightarrow> (string, string fetched list) loader" where
  "two_pages_loaded w =
     \<lparr>items = [''a'', ''b'', ''c''], isLoading = False, error = None, hasMore = True,
      currentPage = 3, source = w,
      calls = [(1, Resolved (Some [''a'', ''b''])), (2, Resolved (Some [''c'']))]\<rparr>"

text \<open>
  An observed element whose content does not fill it, so that both checks ask for
  more.
\<close>

definition short_viewport :: element where
  "short_viewport = \<lparr>scrollTop = 0, scrollHeight = 300, clientHeight = 600\<rparr>"

text \<open>
  The state after page 1 came back as \<open>[a]\<close> and page 2 as \<open>null\<close>, with \<open>w\<close> what
  is left of the script.
\<close>

definition exhausted_feed :: "string fetched list \<Rightarrow> (string, string fetched list) loader" where
  "exhausted_feed w =
     \<lparr>items = [''a''], isLoading = False, error = None, hasMore = False,
      currentPage = 2, source = w,
      calls = [(1, Resolved (Some [''a''])), (2, Resolved None)]\<rparr>"

text \<open>The defaults with \<open>maxPage\<close> given.\<close>

definition defaults_maxPage :: "int \<Rightarrow> ('a, 'a fetched list) options" where
  "defaults_maxPage N = defaults\<lparr>maxPage := Some N\<rparr>"

text \<open>
  Ten scroll events, 5 ms apart from reading \<open>t\<close> on (45 ms from first to last).
\<close>

definition scroll_burst :: "int \<Rightarrow> element option event list" where
  "scroll_burst t =
     map (\<lambda>k. Scroll (Some short_viewport) (t + 5 * k)) [0, 1, 2, 3, 4, 5, 6, 7, 8, 9]"

subsection \<open>What a load and the re-fetch loop establish\<close>

text \<open>
  The relation between the state before and after an operation that can only start a
  load: nothing changed, or only \<open>hasMore\<close> was cleared by the \<open>maxPage\<close> guard, or
  the Fetch Source was invoked once, for \<open>currentPage\<close>.
\<close>

definition load_post :: "('a, 'w) options \<Rightarrow> ('a, 'w) loader \<Rightarrow> ('a, 'w) loader \<Rightarrow> bool" where
  "load_post opts s s' =
     (s' = s \<or>
      \<not> isLoading s \<and> hasMore s \<and> past_maxPage opts s \<and> s' = s\<lparr>hasMore := False\<rparr> \<or>
      (\<exists>r w'. \<not> isLoading s \<and> hasMore s \<and> \<not> past_maxPage opts s \<and>
         fetchItems opts (currentPage s) (source s) = (r, w') \<and>
         s' = s\<lparr>items := items s @ page_of r,
                error := (case r of Rejected err \<Rightarrow> Some (caught ''An unknown error occurred'' err)
                          | _ \<Rightarrow> None),
                hasMore := \<not> returned_nothing r,
                currentPage := (if returned_nonempty r then currentPage s + 1 else currentPage s),
                source := w',
                calls := calls s @ [(currentPage s, r)]\<rparr>))"

text \<open>
  The relation between the arguments of the re-fetch loop and what it returns: the cells
  it leaves alone, the pages it asked for, and how it was left.
\<close>

definition loop_post ::
  "int \<Rightarrow> 'a list \<Rightarrow> int \<Rightarrow> ('a, 'w) loader \<Rightarrow>
   thrown option \<times> 'a list \<times> int \<times> ('a, 'w) loader \<Rightarrow> bool" where
  "loop_post t acc p s res =
     (case res of (thr, acc', p', s') \<Rightarrow>
        items s' = items s \<and> isLoading s' = isLoading s \<and> error s' = error s \<and>
        currentPage s' = currentPage s \<and> p \<le> p' \<and>
        (\<exists>new. calls s' = calls s @ new \<and>
           acc' = acc @ concat (map (page_of \<circ> snd) new) \<and>
           map fst new = (if p' \<le> t then [p..p'] else [p..p' - 1]) \<and>
           (\<forall>c \<in> set new. fst c < p' \<longrightarrow> returned_nonempty (snd c)) \<and>
           (\<forall>c \<in> set new. fst c = p' \<longrightarrow>
              (case thr of Some err \<Rightarrow> snd c = Rejected err | None \<Rightarrow> returned_nothing (snd c)))) \<and>
        (case thr of
           Some err \<Rightarrow> p' \<le> t \<and> hasMore s' = hasMore s
         | None \<Rightarrow> (if p' \<le> t then \<not> hasMore s' else hasMore s' = hasMore s \<and> (p' = p \<or> p' = t + 1))))"

subsection \<open>Invariants\<close>

text \<open>
  With \<open>maxPage = N\<close>: \<open>currentPage\<close> is at least \<open>initialPage\<close> and at most
  \<open>N + 1\<close> (unless it still is \<open>initialPage\<close>), and every page the Fetch Source was
  asked for lies between \<open>initialPage\<close> and \<open>N\<close>.
\<close>

definition pages_within :: "('a, 'w) options \<Rightarrow> int \<Rightarrow> ('a, 'w) loader \<Rightarrow> bool" where
  "pages_within opts N s =
     (initialPage opts \<le> currentPage s \<and>
      (currentPage s \<le> N + 1 \<or> currentPage s = initialPage opts) \<and>
      (\<forall>c \<in> set (calls s). initialPage opts \<le> fst c \<and> fst c \<le> N))"

text \<open>
  The number of invocations that did not fail, and its bound over sequences of loads:
  while \<open>hasMore\<close> is true each of them has advanced \<open>currentPage\<close>.
\<close>

definition answered :: "('a, 'w) loader \<Rightarrow> int" where
  "answered s = int (length (filter (\<lambda>c. \<not> rejected (snd c)) (calls s)))"

definition loads_within :: "('a, 'w) options \<Rightarrow> int \<Rightarrow> ('a, 'w) loader \<Rightarrow> bool" where
  "loads_within opts N s =
     ((hasMore s \<longrightarrow> answered s \<le> currentPage s - initialPage opts) \<and>
      answered s \<le> max 0 (N - initialPage opts + 1))"

text \<open>
  The closure at a moment when the clock has reached \<open>t\<close>: the applications of
  \<open>func\<close> are spaced, every pending timeout is the one \<open>lastFunc\<close> names, and
  \<open>lastRan\<close> is a positive past reading, not before the last application, once
  \<open>func\<close> has been applied.
\<close>

definition throttle_inv :: "int \<Rightarrow> int \<Rightarrow> 'st throttled \<Rightarrow> bool" where
  "throttle_inv limit t th =
     (spaced limit (applied th) \<and>
      (\<forall>i d. timeouts th i = Some d \<longrightarrow> lastFunc th = Some i) \<and>
      (case lastRan th of
         None \<Rightarrow> applied th = []
       | Some ran_at \<Rightarrow> 0 < ran_at \<and> ran_at \<le> t \<and> applied th \<noteq> [] \<and> last (applied th) \<le> ran_at))"

section \<open>Properties\<close>

subsection \<open>One invocation of the Fetch Source, one load\<close>


lemma await_fetchItems_cases:
  "await_fetchItems opts p s = (r, s') \<Longrightarrow>
   \<exists>w'. fetchItems opts p (source s) = (r, w') \<and> s' = s\<lparr>source := w', calls := calls s @ [(p, r)]\<rparr>"
  by (auto simp: await_fetchItems_def split: prod.splits)

lemma returned_cases:
  obtains (rejected) err where "r = Rejected err"
  | (absent) "returned_nothing r"
  | (page) xs where "r = Resolved (Some xs)" "xs \<noteq> []"
  by (cases r rule: returned_nothing.cases) auto

lemma page_of_nothing: "returned_nothing r \<Longrightarrow> page_of r = []"
  by (cases r rule: returned_nothing.cases) auto

lemma refetch_loop_stop:
  "\<not> p \<le> t \<Longrightarrow> refetch_loop opts t acc p s = (None, acc, p, s)"
  by (simp add: refetch_loop.simps)

lemma refetch_loop_reject:
  "p \<le> t \<Longrightarrow> await_fetchItems opts p s = (Rejected err, s1) \<Longrightarrow>
   refetch_loop opts t acc p s = (Some err, acc, p, s1)"
  by (simp add: refetch_loop.simps)

lemma refetch_loop_nothing:
  "p \<le> t \<Longrightarrow> await_fetchItems opts p s = (r, s1) \<Longrightarrow> returned_nothing r \<Longrightarrow>
   refetch_loop opts t acc p s = (None, acc, p, s1\<lparr>hasMore := False\<rparr>)"
  by (cases r rule: returned_nothing.cases) (simp_all add: refetch_loop.simps)

lemma refetch_loop_page:
  "p \<le> t \<Longrightarrow> await_fetchItems opts p s = (Resolved (Some xs), s1) \<Longrightarrow> xs \<noteq> [] \<Longrightarrow>
   refetch_loop opts t acc p s = refetch_loop opts t (acc @ xs) (p + 1) s1"
  by (simp add: refetch_loop.simps)

lemma refetch_loop_induct [consumes 1, case_names stop reject absent page]:
  assumes run: "refetch_loop opts t acc p s = res"
    and stop: "\<And>acc p s. \<not> p \<le> t \<Longrightarrow> P acc p s (None, acc, p, s)"
    and reject: "\<And>acc p s err s1. p \<le> t \<Longrightarrow> await_fetchItems opts p s = (Rejected err, s1) \<Longrightarrow>
        P acc p s (Some err, acc, p, s1)"
    and absent: "\<And>acc p s r s1. p \<le> t \<Longrightarrow> await_fetchItems opts p s = (r, s1) \<Longrightarrow>
        returned_nothing r \<Longrightarrow> P acc p s (None, acc, p, s1\<lparr>hasMore := False\<rparr>)"
    and page: "\<And>acc p s xs s1 res. p \<le> t \<Longrightarrow>
        await_fetchItems opts p s = (Resolved (Some xs), s1) \<Longrightarrow> xs \<noteq> [] \<Longrightarrow>
        P (acc @ xs) (p + 1) s1 res \<Longrightarrow> refetch_loop opts t (acc @ xs) (p + 1) s1 = res \<Longrightarrow> P acc p s res"
  shows "P acc p s res"
  using run
proof (induction "nat (t + 1 - p)" arbitrary: acc p s res)
  case 0
  then have "\<not> p \<le> t" by simp
  with "0.prems" stop [of p acc s] show ?case by (simp add: refetch_loop_stop)
next
  case (Suc n)
  then have le: "p \<le> t" by simp
  obtain r s1 where a: "await_fetchItems opts p s = (r, s1)" by (cases "await_fetchItems opts p s")
  show ?case
  proof (cases r rule: returned_cases)
    case (rejected err)
    with le a Suc.prems reject [of p s err s1 acc] show ?thesis
      by (simp add: refetch_loop_reject)
  next
    case absent
    with le a Suc.prems assms(4) [of p s r s1 acc] show ?thesis
      by (simp add: refetch_loop_nothing)
  next
    case (page xs)
    with le a Suc.prems have eq: "refetch_loop opts t (acc @ xs) (p + 1) s1 = res"
      by (simp add: refetch_loop_page)
    from Suc.hyps(2) have "n = nat (t + 1 - (p + 1))" by simp
    from Suc.hyps(1) [OF this eq] have "P (acc @ xs) (p + 1) s1 res" .
    with assms(5) [of p s xs s1 acc res] le a page eq show ?thesis by simp
  qed
qed


lemma refetch_loop_post:
  assumes "refetch_loop opts t acc p s = res"
  shows "loop_post t acc p s res"
  using assms
proof (induction rule: refetch_loop_induct)
  case (stop acc p s)
  then show ?case by (simp add: loop_post_def)
next
  case (reject acc p s err s1)
  from await_fetchItems_cases [OF reject(2)] reject(1) show ?case
    by (auto simp: loop_post_def)
next
  case (absent acc p s r s1)
  from await_fetchItems_cases [OF absent(2)] absent(1,3) show ?case
    by (auto simp: loop_post_def page_of_nothing)
next
  case (page acc p s xs s1 res)
  obtain thr acc' p' s' where res: "res = (thr, acc', p', s')" by (cases res)
  from await_fetchItems_cases [OF page(2)] obtain w' where
    s1: "s1 = s\<lparr>source := w', calls := calls s @ [(p, Resolved (Some xs))]\<rparr>" by auto
  from page.IH res obtain new where
    fr: "items s' = items s1" "isLoading s' = isLoading s1" "error s' = error s1"
      "currentPage s' = currentPage s1" "p + 1 \<le> p'"
    and c: "calls s' = calls s1 @ new"
    and acc: "acc' = (acc @ xs) @ concat (map (page_of \<circ> snd) new)"
    and pg: "map fst new = (if p' \<le> t then [p + 1..p'] else [p + 1..p' - 1])"
    and ne: "\<forall>c \<in> set new. fst c < p' \<longrightarrow> returned_nonempty (snd c)"
    and lst: "\<forall>c \<in> set new. fst c = p' \<longrightarrow>
              (case thr of Some err \<Rightarrow> snd c = Rejected err | None \<Rightarrow> returned_nothing (snd c))"
    and hm: "(case thr of
           Some err \<Rightarrow> p' \<le> t \<and> hasMore s' = hasMore s1
         | None \<Rightarrow> (if p' \<le> t then \<not> hasMore s' else hasMore s' = hasMore s1 \<and> (p' = p + 1 \<or> p' = t + 1)))"
    unfolding loop_post_def prod.case by blast
  let ?new = "(p, Resolved (Some xs)) # new"
  have 1: "calls s' = calls s @ ?new" using c s1 by simp
  have 2: "acc' = acc @ concat (map (page_of \<circ> snd) ?new)" using acc by simp
  have 3: "map fst ?new = (if p' \<le> t then [p..p'] else [p..p' - 1])"
    using pg fr(5) page(1) by (simp add: upto_rec1 [of p])
  have 4: "\<forall>c \<in> set ?new. fst c < p' \<longrightarrow> returned_nonempty (snd c)"
    using ne page(3) by simp
  have 5: "\<forall>c \<in> set ?new. fst c = p' \<longrightarrow>
              (case thr of Some err \<Rightarrow> snd c = Rejected err | None \<Rightarrow> returned_nothing (snd c))"
    using lst fr(5) by simp
  have 6: "(case thr of
           Some err \<Rightarrow> p' \<le> t \<and> hasMore s' = hasMore s
         | None \<Rightarrow> (if p' \<le> t then \<not> hasMore s' else hasMore s' = hasMore s \<and> (p' = p \<or> p' = t + 1)))"
    using hm s1 page(1) fr(5) by (auto split: option.splits if_splits)
  from fr s1 have 7: "items s' = items s \<and> isLoading s' = isLoading s \<and> error s' = error s \<and>
        currentPage s' = currentPage s \<and> p \<le> p'" by simp
  from 1 2 3 4 5 6 7 show ?case unfolding res loop_post_def prod.case by blast
qed


lemma loader_eqI:
  "items s = items s' \<Longrightarrow> isLoading s = isLoading s' \<Longrightarrow> error s = error s' \<Longrightarrow>
   hasMore s = hasMore s' \<Longrightarrow> currentPage s = currentPage s' \<Longrightarrow> source s = source s' \<Longrightarrow>
   calls s = calls s' \<Longrightarrow> loader.more s = loader.more s' \<Longrightarrow> s = s'"
  by simp

lemma loadMore_post: "fst (loadMore opts s) = Fulfilled \<and> load_post opts s (snd (loadMore opts s))"
proof (cases "isLoading s \<or> \<not> hasMore s \<or> past_maxPage opts s")
  case True
  then show ?thesis by (auto simp: loadMore_def load_post_def)
next
  case False
  obtain r w' where f: "fetchItems opts (currentPage s) (source s) = (r, w')"
    by (cases "fetchItems opts (currentPage s) (source s)")
  show ?thesis
  proof (cases r rule: returned_cases)
    case (rejected err)
    with False f show ?thesis
      by (auto simp: loadMore_def loadMore_try_def await_fetchItems_def load_post_def
          intro!: loader_eqI)
  next
    case absent
    with False f show ?thesis
      by (cases r rule: returned_nothing.cases)
        (auto simp: loadMore_def loadMore_try_def await_fetchItems_def load_post_def
          intro!: loader_eqI)
  next
    case (page xs)
    with False f show ?thesis
      by (auto simp: loadMore_def loadMore_try_def await_fetchItems_def load_post_def
          intro!: loader_eqI)
  qed
qed

lemma load_post_refl: "load_post opts s s"
  by (simp add: load_post_def)

lemma load_post_maxPage:
  "\<not> isLoading s \<Longrightarrow> hasMore s \<Longrightarrow> past_maxPage opts s \<Longrightarrow>
   load_post opts s (s\<lparr>hasMore := False\<rparr>)"
  by (simp add: load_post_def)

lemma exec_load_post: "is_load x \<Longrightarrow> load_post opts s (exec opts x s)"
proof (cases x)
  case LoadMore
  then show ?thesis by (simp add: loadMore_post)
next
  case (CheckScroll targetRef)
  then show ?thesis
    by (simp add: checkScroll_def load_post_refl load_post_maxPage loadMore_post
        split: option.splits)
next
  case (CheckIfNeedsMoreContent targetRef)
  then show ?thesis
    by (simp add: checkIfNeedsMoreContent_def load_post_refl loadMore_post
        split: option.splits)
qed simp_all

lemma load_post_cases [consumes 1, case_names same capped fetched]:
  assumes "load_post opts s s'"
  obtains (same) "s' = s"
  | (capped) "\<not> isLoading s" "hasMore s" "past_maxPage opts s" "s' = s\<lparr>hasMore := False\<rparr>"
  | (fetched) r w' where "\<not> isLoading s" "hasMore s" "\<not> past_maxPage opts s"
      "fetchItems opts (currentPage s) (source s) = (r, w')"
      "s' = s\<lparr>items := items s @ page_of r,
                error := (case r of Rejected err \<Rightarrow> Some (caught ''An unknown error occurred'' err)
                          | _ \<Rightarrow> None),
                hasMore := \<not> returned_nothing r,
                currentPage := (if returned_nonempty r then currentPage s + 1 else currentPage s),
                source := w',
                calls := calls s @ [(currentPage s, r)]\<rparr>"
  using assms unfolding load_post_def by blast

lemma refetchAll_in_flight: "isLoading s \<Longrightarrow> refetchAll opts s = (Fulfilled, s)"
  by (simp add: refetchAll_def)

lemma refetchAll_post:
  assumes idle: "\<not> isLoading s"
  obtains thr new p' where
    "fst (refetchAll opts s) = Fulfilled"
    "calls (snd (refetchAll opts s)) = calls s @ new"
    "\<not> isLoading (snd (refetchAll opts s))"
    "initialPage opts \<le> p'"
    "map fst new = (if p' \<le> currentPage s - 1 then [initialPage opts..p']
                    else [initialPage opts..p' - 1])"
    "\<forall>c \<in> set new. fst c < p' \<longrightarrow> returned_nonempty (snd c)"
    "\<forall>c \<in> set new. fst c = p' \<longrightarrow>
       (case thr of Some err \<Rightarrow> snd c = Rejected err | None \<Rightarrow> returned_nothing (snd c))"
    "case thr of
       Some err \<Rightarrow>
         p' \<le> currentPage s - 1 \<and> items (snd (refetchAll opts s)) = [] \<and>
         currentPage (snd (refetchAll opts s)) = currentPage s \<and>
         hasMore (snd (refetchAll opts s)) = hasMore s \<and>
         error (snd (refetchAll opts s)) =
           Some (caught ''An error occurred while refetching items'' err)
     | None \<Rightarrow>
         items (snd (refetchAll opts s)) = concat (map (page_of \<circ> snd) new) \<and>
         currentPage (snd (refetchAll opts s)) = p' \<and>
         error (snd (refetchAll opts s)) = None \<and>
         (if p' \<le> currentPage s - 1 then \<not> hasMore (snd (refetchAll opts s))
          else hasMore (snd (refetchAll opts s)) \<and>
               (p' = initialPage opts \<or> p' = currentPage s))"
proof -
  let ?s0 = "s\<lparr>isLoading := True, error := None, items := []\<rparr>"
  let ?t = "currentPage s - 1"
  obtain thr acc' p' s1 where
    loop: "refetch_loop opts ?t [] (initialPage opts) ?s0 = (thr, acc', p', s1)"
    by (cases "refetch_loop opts ?t [] (initialPage opts) ?s0") auto
  from refetch_loop_post [OF loop] obtain new where
    fr0: "items s1 = items ?s0" "isLoading s1 = isLoading ?s0" "error s1 = error ?s0"
      "currentPage s1 = currentPage ?s0" "initialPage opts \<le> p'"
    and c0: "calls s1 = calls ?s0 @ new"
    and acc0: "acc' = [] @ concat (map (page_of \<circ> snd) new)"
    and pg: "map fst new = (if p' \<le> ?t then [initialPage opts..p'] else [initialPage opts..p' - 1])"
    and ne: "\<forall>c \<in> set new. fst c < p' \<longrightarrow> returned_nonempty (snd c)"
    and lst: "\<forall>c \<in> set new. fst c = p' \<longrightarrow>
              (case thr of Some err \<Rightarrow> snd c = Rejected err | None \<Rightarrow> returned_nothing (snd c))"
    and hm0: "(case thr of
           Some err \<Rightarrow> p' \<le> ?t \<and> hasMore s1 = hasMore ?s0
         | None \<Rightarrow> (if p' \<le> ?t then \<not> hasMore s1
                     else hasMore s1 = hasMore ?s0 \<and> (p' = initialPage opts \<or> p' = ?t + 1)))"
    unfolding loop_post_def prod.case by blast
  from fr0 have fr: "items s1 = []" "isLoading s1" "error s1 = None"
    "currentPage s1 = currentPage s" "initialPage opts \<le> p'" by simp_all
  from c0 have c: "calls s1 = calls s @ new" by simp
  from acc0 have acc: "acc' = concat (map (page_of \<circ> snd) new)" by simp
  from hm0 have hm: "(case thr of
           Some err \<Rightarrow> p' \<le> ?t \<and> hasMore s1 = hasMore s
         | None \<Rightarrow> (if p' \<le> ?t then \<not> hasMore s1
                     else hasMore s1 = hasMore s \<and> (p' = initialPage opts \<or> p' = currentPage s)))"
    by (auto split: option.splits if_splits)
  let ?s' = "snd (refetchAll opts s)"
  have 1: "fst (refetchAll opts s) = Fulfilled"
    using idle loop by (simp add: refetchAll_def refetchAll_try_def Let_def split: option.splits)
  have 2: "calls ?s' = calls s @ new" "\<not> isLoading ?s'"
    using idle loop c by (simp_all add: refetchAll_def refetchAll_try_def Let_def split: option.splits)
  have 3: "case thr of
       Some err \<Rightarrow>
         p' \<le> currentPage s - 1 \<and> items ?s' = [] \<and> currentPage ?s' = currentPage s \<and>
         hasMore ?s' = hasMore s \<and>
         error ?s' = Some (caught ''An error occurred while refetching items'' err)
     | None \<Rightarrow>
         items ?s' = concat (map (page_of \<circ> snd) new) \<and> currentPage ?s' = p' \<and>
         error ?s' = None \<and>
         (if p' \<le> currentPage s - 1 then \<not> hasMore ?s'
          else hasMore ?s' \<and> (p' = initialPage opts \<or> p' = currentPage s))"
    using idle loop fr acc hm
    by (auto simp: refetchAll_def refetchAll_try_def Let_def split: option.splits if_splits)
  from that [OF 1 2 fr(5) pg ne lst 3] show thesis .
qed

lemma past_maxPage_page:
  "currentPage s' = currentPage s \<Longrightarrow> past_maxPage opts s' = past_maxPage opts s"
  by (simp add: past_maxPage_def split: option.splits)

lemma loadMore_fetches:
  assumes "\<not> isLoading s" and "hasMore s" and "\<not> past_maxPage opts s"
  shows "\<exists>r. calls (snd (loadMore opts s)) = calls s @ [(currentPage s, r)]"
  using assms
  by (simp add: loadMore_def loadMore_try_def await_fetchItems_def
          split: prod.splits fetched.splits option.splits)

text \<open>
  While a fetch is in flight, every operation but \<open>reset\<close> returns at its first
  guard and changes nothing; so between the start of a load and its end, no other
  load can start.
\<close>

lemma in_flight_unchanged: "isLoading s \<Longrightarrow> x \<noteq> Reset \<Longrightarrow> exec opts x s = s"
  by (cases x) (simp_all add: loadMore_def refetchAll_def checkScroll_def
      checkIfNeedsMoreContent_def split: option.splits)

subsection \<open>\<open>loadMore\<close> and \<open>isLoading\<close>\<close>

text \<open>
  Claim C4, as the code has it. After an invocation of \<open>loadMore()\<close> completes,
  \<open>isLoading\<close> is false whenever no fetch was in flight when it was called: on the
  success path, on the error path, when \<open>hasMore\<close> is false and when \<open>currentPage\<close>
  is past \<open>maxPage\<close>. When a fetch is already in flight, the call returns before the
  \<open>try\<close> statement, so its \<open>finally\<close> does not run: the state is left as it was and
  \<open>isLoading\<close> is still true.
\<close>

theorem loadMore_isLoading:
  "(\<not> isLoading s \<longrightarrow> \<not> isLoading (snd (loadMore opts s))) \<and>
   (isLoading s \<longrightarrow> snd (loadMore opts s) = s)"
proof -
  have "load_post opts s (snd (loadMore opts s))" by (simp add: loadMore_post)
  then show ?thesis by (cases rule: load_post_cases) simp_all
qed

theorem loadMore_isLoading_witness:
  "\<not> isLoading (snd (loadMore (defaults :: (string, string fetched list) options)
      (init defaults [Rejected ThrownOther]))) \<and>
   snd (loadMore (defaults :: (string, string fetched list) options)
      ((init defaults [])\<lparr>isLoading := True\<rparr>)) = (init defaults [])\<lparr>isLoading := True\<rparr>"
  using loadMore_isLoading [of "init defaults [Rejected ThrownOther]" "defaults :: (string, string fetched list) options"]
    loadMore_isLoading [of "(init defaults [])\<lparr>isLoading := True\<rparr>" "defaults :: (string, string fetched list) options"]
  by (simp add: init_def)

text \<open>
  Claim C4 as it was stated asks for \<open>isLoading\<close> to be false after the early return
  taken while a fetch is in flight. On a fresh loader whose \<open>isLoading\<close> is true,
  \<open>loadMore()\<close> completes and \<open>isLoading\<close> is true.
\<close>

theorem loadMore_in_flight_counterexample:
  "isLoading (snd (loadMore (defaults :: (string, string fetched list) options)
     ((init defaults [])\<lparr>isLoading := True\<rparr>)))"
  by (simp add: loadMore_def)

subsection \<open>A failed fetch in \<open>loadMore\<close>\<close>

text \<open>
  Claim C6. From a state with \<open>hasMore\<close> true and no fetch in flight, if the Fetch
  Source throws or rejects during \<open>loadMore()\<close> (the call is in the log with a
  rejection), then the awaited call is fulfilled, not rejected; \<open>error\<close> holds the
  thrown value itself when it is an \<open>Error\<close>, and otherwise a new \<open>Error\<close> with the
  message of line 151; \<open>hasMore\<close> is
  still true and \<open>isLoading\<close> false; \<open>currentPage\<close> and \<open>items\<close> are unchanged; and
  the next \<open>loadMore()\<close> asks the Fetch Source for the same page again.
\<close>

theorem loadMore_captures_rejection:
  assumes "hasMore s" and "\<not> isLoading s"
    and "(p, Rejected err) \<in> set (new_calls s (snd (loadMore opts s)))"
  shows "fst (loadMore opts s) = Fulfilled \<and>
    error (snd (loadMore opts s))
      = Some (case err of ThrownError e \<Rightarrow> e
              | ThrownOther \<Rightarrow> Error ''An unknown error occurred'') \<and>
    hasMore (snd (loadMore opts s)) \<and>
    \<not> isLoading (snd (loadMore opts s)) \<and>
    p = currentPage s \<and>
    currentPage (snd (loadMore opts s)) = currentPage s \<and>
    items (snd (loadMore opts s)) = items s \<and>
    map fst (new_calls (snd (loadMore opts s)) (snd (loadMore opts (snd (loadMore opts s)))))
      = [currentPage s]"
proof -
  let ?s' = "snd (loadMore opts s)"
  let ?s'' = "snd (loadMore opts ?s')"
  have ful: "fst (loadMore opts s) = Fulfilled" by (simp add: loadMore_post)
  have "load_post opts s ?s'" by (simp add: loadMore_post)
  then have first: "error ?s' = Some (caught ''An unknown error occurred'' err) \<and> hasMore ?s' \<and>
    \<not> isLoading ?s' \<and> p = currentPage s \<and> currentPage ?s' = currentPage s \<and>
    items ?s' = items s \<and> \<not> past_maxPage opts ?s'"
  proof (cases rule: load_post_cases)
    case same
    with assms(3) show ?thesis by (simp add: new_calls_def)
  next
    case capped
    with assms(3) show ?thesis by (simp add: new_calls_def)
  next
    case (fetched r w')
    from fetched(5) have "new_calls s ?s' = [(currentPage s, r)]" by (simp add: new_calls_def)
    with assms(3) have r: "r = Rejected err" and p: "p = currentPage s" by simp_all
    from fetched(5) r have "error ?s' = Some (caught ''An unknown error occurred'' err)"
      "hasMore ?s'" "\<not> isLoading ?s'" "currentPage ?s' = currentPage s" "items ?s' = items s"
      using assms(2) by simp_all
    moreover from past_maxPage_page [OF this(4), of opts] fetched(3)
    have "\<not> past_maxPage opts ?s'" by simp
    ultimately show ?thesis using p by simp
  qed
  from first loadMore_fetches [of ?s' opts]
  have "map fst (new_calls ?s' ?s'') = [currentPage s]"
    by (auto simp: new_calls_def)
  with ful first show ?thesis by (simp add: caught_def)
qed

theorem loadMore_captures_rejection_witness:
  "hasMore (init defaults [Rejected (ThrownError (Error ''offline'')) :: string fetched]) \<and>
   \<not> isLoading (init defaults [Rejected (ThrownError (Error ''offline'')) :: string fetched]) \<and>
   (1, Rejected (ThrownError (Error ''offline''))) \<in> set (new_calls
      (init defaults [Rejected (ThrownError (Error ''offline'')) :: string fetched])
      (snd (loadMore defaults (init defaults [Rejected (ThrownError (Error ''offline''))])))) \<and>
   error (snd (loadMore defaults
      (init defaults [Rejected (ThrownError (Error ''offline'')) :: string fetched])))
     = Some (Error ''offline'') \<and>
   hasMore (snd (loadMore defaults
      (init defaults [Rejected (ThrownError (Error ''offline'')) :: string fetched]))) \<and>
   (1, Rejected ThrownOther) \<in> set (new_calls (init defaults [Rejected ThrownOther :: string fetched])
      (snd (loadMore defaults (init defaults [Rejected ThrownOther])))) \<and>
   error (snd (loadMore defaults (init defaults [Rejected ThrownOther :: string fetched])))
     = Some (Error ''An unknown error occurred'') \<and>
   hasMore (snd (loadMore defaults (init defaults [Rejected ThrownOther :: string fetched])))"
proof -
  let ?s = "init defaults [Rejected (ThrownError (Error ''offline'')) :: string fetched]"
  let ?t = "init defaults [Rejected ThrownOther :: string fetched]"
  have h1: "hasMore ?s" and h2: "\<not> isLoading ?s" by (simp_all add: init_def)
  have h3: "(1, Rejected (ThrownError (Error ''offline'')))
      \<in> set (new_calls ?s (snd (loadMore defaults ?s)))"
    by (simp add: new_calls_def loadMore_def loadMore_try_def await_fetchItems_def
        past_maxPage_def init_def defaults_def scripted_def)
  have k1: "hasMore ?t" and k2: "\<not> isLoading ?t" by (simp_all add: init_def)
  have k3: "(1, Rejected ThrownOther) \<in> set (new_calls ?t (snd (loadMore defaults ?t)))"
    by (simp add: new_calls_def loadMore_def loadMore_try_def await_fetchItems_def
        past_maxPage_def init_def defaults_def scripted_def)
  from loadMore_captures_rejection [OF h1 h2 h3] loadMore_captures_rejection [OF k1 k2 k3]
    h1 h2 h3 k3
  show ?thesis by simp
qed

subsection \<open>\<open>refetchAll\<close>\<close>

lemma two_pages_loaded_reached:
  "run defaults [LoadMore, LoadMore]
     (init defaults (Resolved (Some [''a'', ''b'']) # Resolved (Some [''c'']) # w))
   = two_pages_loaded w"
  by (simp add: two_pages_loaded_def init_def defaults_def scripted_def loadMore_def
      loadMore_try_def await_fetchItems_def past_maxPage_def)

lemma refetch_then_offline:
  "snd (refetchAll defaults (two_pages_loaded
      [Resolved (Some [''a'', ''b'']), Rejected (ThrownError (Error ''offline''))]))
   = \<lparr>items = [], isLoading = False, error = Some (Error ''offline''), hasMore = True,
      currentPage = 3, source = [],
      calls = [(1, Resolved (Some [''a'', ''b''])), (2, Resolved (Some [''c''])),
               (1, Resolved (Some [''a'', ''b''])),
               (2, Rejected (ThrownError (Error ''offline'')))]\<rparr>"
  by (simp add: two_pages_loaded_def defaults_def scripted_def refetchAll_def refetchAll_try_def
      refetch_loop.simps await_fetchItems_def caught_def)

text \<open>
  Claim C10. When no page has been fetched yet (\<open>currentPage = initialPage\<close>) and no
  fetch is in flight, an awaited \<open>refetchAll()\<close> is fulfilled without invoking the
  Fetch Source, and leaves \<open>items\<close> empty, \<open>currentPage = initialPage\<close>, \<open>error\<close>
  null, \<open>isLoading\<close> false and \<open>hasMore\<close> true, whatever \<open>hasMore\<close> was before.
\<close>

theorem refetchAll_nothing_loaded:
  assumes "currentPage s = initialPage opts" and "\<not> isLoading s"
  shows "fst (refetchAll opts s) = Fulfilled \<and>
    new_calls s (snd (refetchAll opts s)) = [] \<and>
    items (snd (refetchAll opts s)) = [] \<and>
    currentPage (snd (refetchAll opts s)) = initialPage opts \<and>
    error (snd (refetchAll opts s)) = None \<and>
    \<not> isLoading (snd (refetchAll opts s)) \<and>
    hasMore (snd (refetchAll opts s))"
proof -
  have stop: "refetch_loop opts (initialPage opts - 1) [] (initialPage opts)
      (s\<lparr>isLoading := True, error := None, items := []\<rparr>)
    = (None, [], initialPage opts, s\<lparr>isLoading := True, error := None, items := []\<rparr>)"
    by (simp add: refetch_loop_stop)
  have "refetchAll opts s =
    (Fulfilled, s\<lparr>isLoading := False, error := None, items := [],
       currentPage := initialPage opts, hasMore := True\<rparr>)"
    using assms by (simp add: refetchAll_def refetchAll_try_def stop)
  then show ?thesis by (simp add: new_calls_def)
qed

theorem refetchAll_nothing_loaded_witness:
  "currentPage ((init defaults [Resolved (Some [''a''])])\<lparr>hasMore := False\<rparr>)
     = initialPage (defaults :: (string, string fetched list) options) \<and>
   \<not> isLoading ((init defaults [Resolved (Some [''a''])])\<lparr>hasMore := False\<rparr>) \<and>
   new_calls ((init defaults [Resolved (Some [''a''])])\<lparr>hasMore := False\<rparr>)
     (snd (refetchAll defaults ((init defaults [Resolved (Some [''a''])])\<lparr>hasMore := False\<rparr>)))
     = [] \<and>
   hasMore (snd (refetchAll defaults ((init defaults [Resolved (Some [''a''])])\<lparr>hasMore := False\<rparr>)))"
proof -
  let ?d = "defaults :: (string, string fetched list) options"
  let ?s = "(init ?d [Resolved (Some [''a''])])\<lparr>hasMore := False\<rparr>"
  have h1: "currentPage ?s = initialPage ?d" and h2: "\<not> isLoading ?s"
    by (simp_all add: init_def)
  from refetchAll_nothing_loaded [OF h1 h2] h1 h2 show ?thesis by simp
qed

text \<open>
  Claim C5. If the Fetch Source throws or rejects on some page during the loop of
  \<open>refetchAll()\<close>, the pages accumulated before the failure are discarded: when
  \<open>refetchAll\<close> has returned (fulfilled), \<open>items\<close> is empty, as the start of the
  operation left it, \<open>currentPage\<close> and \<open>hasMore\<close> are what they were before the call,
  the thrown value is in \<open>error\<close> and \<open>isLoading\<close> is false.
\<close>

theorem refetchAll_failure_discards:
  assumes "(p, Rejected err) \<in> set (new_calls s (snd (refetchAll opts s)))"
  shows "fst (refetchAll opts s) = Fulfilled \<and>
    items (snd (refetchAll opts s)) = [] \<and>
    currentPage (snd (refetchAll opts s)) = currentPage s \<and>
    hasMore (snd (refetchAll opts s)) = hasMore s \<and>
    error (snd (refetchAll opts s)) =
      Some (caught ''An error occurred while refetching items'' err) \<and>
    \<not> isLoading (snd (refetchAll opts s))"
proof -
  let ?s' = "snd (refetchAll opts s)"
  have idle0: "\<not> isLoading s"
  proof
    assume "isLoading s"
    with assms show False by (simp add: refetchAll_in_flight new_calls_def)
  qed
  then obtain thr new p' where
    ful: "fst (refetchAll opts s) = Fulfilled"
    and c: "calls ?s' = calls s @ new"
    and idle: "\<not> isLoading ?s'"
    and ne: "\<forall>c \<in> set new. fst c < p' \<longrightarrow> returned_nonempty (snd c)"
    and lst: "\<forall>c \<in> set new. fst c = p' \<longrightarrow>
       (case thr of Some err \<Rightarrow> snd c = Rejected err | None \<Rightarrow> returned_nothing (snd c))"
    and pg: "map fst new = (if p' \<le> currentPage s - 1 then [initialPage opts..p']
                    else [initialPage opts..p' - 1])"
    and out: "case thr of
       Some err \<Rightarrow>
         p' \<le> currentPage s - 1 \<and> items ?s' = [] \<and> currentPage ?s' = currentPage s \<and>
         hasMore ?s' = hasMore s \<and>
         error ?s' = Some (caught ''An error occurred while refetching items'' err)
     | None \<Rightarrow>
         items ?s' = concat (map (page_of \<circ> snd) new) \<and> currentPage ?s' = p' \<and>
         error ?s' = None \<and>
         (if p' \<le> currentPage s - 1 then \<not> hasMore ?s'
          else hasMore ?s' \<and> (p' = initialPage opts \<or> p' = currentPage s))"
    by (rule refetchAll_post [of s opts]) blast
  from c assms have mem: "(p, Rejected err) \<in> set new" by (simp add: new_calls_def)
  then have "p \<in> set (map fst new)" by force
  with pg have "p \<le> p'" by (auto split: if_splits)
  moreover from ne mem have "\<not> p < p'" by fastforce
  ultimately have "p = p'" by simp
  with lst mem have "thr = Some err" by (cases thr) fastforce+
  with out ful idle show ?thesis by simp
qed

theorem refetchAll_failure_discards_witness:
  "(2, Rejected (ThrownError (Error ''offline''))) \<in> set (new_calls
      (two_pages_loaded [Resolved (Some [''a'', ''b'']), Rejected (ThrownError (Error ''offline''))])
      (snd (refetchAll defaults (two_pages_loaded
         [Resolved (Some [''a'', ''b'']), Rejected (ThrownError (Error ''offline''))])))) \<and>
   items (snd (refetchAll defaults (two_pages_loaded
      [Resolved (Some [''a'', ''b'']), Rejected (ThrownError (Error ''offline''))]))) = [] \<and>
   currentPage (snd (refetchAll defaults (two_pages_loaded
      [Resolved (Some [''a'', ''b'']), Rejected (ThrownError (Error ''offline''))]))) = 3 \<and>
   error (snd (refetchAll defaults (two_pages_loaded
      [Resolved (Some [''a'', ''b'']), Rejected (ThrownError (Error ''offline''))])))
     = Some (Error ''offline'')"
proof -
  let ?s = "two_pages_loaded
      [Resolved (Some [''a'', ''b'']), Rejected (ThrownError (Error ''offline''))]"
  have h2: "(2, Rejected (ThrownError (Error ''offline'')))
      \<in> set (new_calls ?s (snd (refetchAll defaults ?s)))"
    by (simp add: refetch_then_offline new_calls_def) (simp add: two_pages_loaded_def)
  from refetchAll_failure_discards [OF h2] h2 show ?thesis
    by (simp add: caught_def) (simp add: two_pages_loaded_def)
qed



subsection \<open>Sequences of loads\<close>

lemma returned_nonempty_not_nothing: "returned_nonempty r \<Longrightarrow> \<not> returned_nothing r"
  by (cases r rule: returned_nothing.cases) auto

lemma run_load_post:
  assumes "list_all is_load ops"
  shows "\<exists>new. calls (run opts ops s) = calls s @ new \<and>
    items (run opts ops s) = items s @ concat (map (page_of \<circ> snd) new) \<and>
    currentPage (run opts ops s)
      = currentPage s + int (length (filter (returned_nonempty \<circ> snd) new)) \<and>
    ((\<forall>c \<in> set new. returned_nonempty (snd c)) \<longrightarrow>
       map fst new = [currentPage s..currentPage s + int (length new) - 1])"
  using assms
proof (induction ops arbitrary: s)
  case Nil
  show ?case by simp
next
  case (Cons x ops)
  let ?s1 = "exec opts x s"
  from Cons.prems have x: "is_load x" and ops: "list_all is_load ops" by simp_all
  from Cons.IH [OF ops, of ?s1] obtain new where
    c: "calls (run opts ops ?s1) = calls ?s1 @ new"
    and i: "items (run opts ops ?s1) = items ?s1 @ concat (map (page_of \<circ> snd) new)"
    and p: "currentPage (run opts ops ?s1)
      = currentPage ?s1 + int (length (filter (returned_nonempty \<circ> snd) new))"
    and pg: "(\<forall>c \<in> set new. returned_nonempty (snd c)) \<longrightarrow>
       map fst new = [currentPage ?s1..currentPage ?s1 + int (length new) - 1]"
    by blast
  from exec_load_post [OF x, of opts s] show ?case
  proof (cases rule: load_post_cases)
    case same
    with c i p pg show ?thesis by (intro exI [of _ new]) (simp add: comp_def)
  next
    case capped
    with c i p pg show ?thesis by (intro exI [of _ new]) (simp add: comp_def)
  next
    case (fetched r w')
    let ?new = "(currentPage s, r) # new"
    from fetched(5) have f: "calls ?s1 = calls s @ [(currentPage s, r)]"
      "items ?s1 = items s @ page_of r"
      "currentPage ?s1 = (if returned_nonempty r then currentPage s + 1 else currentPage s)"
      by simp_all
    have 1: "calls (run opts (x # ops) s) = calls s @ ?new" using c f by simp
    have 2: "items (run opts (x # ops) s) = items s @ concat (map (page_of \<circ> snd) ?new)"
      using i f by simp
    have 3: "currentPage (run opts (x # ops) s)
      = currentPage s + int (length (filter (returned_nonempty \<circ> snd) ?new))"
      using p f by simp
    have 4: "(\<forall>c \<in> set ?new. returned_nonempty (snd c)) \<longrightarrow>
       map fst ?new = [currentPage s..currentPage s + int (length ?new) - 1]"
    proof
      assume a: "\<forall>c \<in> set ?new. returned_nonempty (snd c)"
      then have "returned_nonempty r" by simp
      with f(3) have "currentPage ?s1 = currentPage s + 1" by simp
      with pg a have "map fst new = [currentPage s + 1..currentPage s + int (length new)]"
        by (simp add: add.commute add.left_commute)
      then show "map fst ?new = [currentPage s..currentPage s + int (length ?new) - 1]"
        by (simp add: upto_rec1 [of "currentPage s"])
    qed
    from 1 2 3 4 show ?thesis by blast
  qed
qed

lemma three_loads:
  "run defaults [LoadMore, CheckIfNeedsMoreContent (Some short_viewport), LoadMore]
     (init defaults [Resolved (Some [''a'', ''b'']), Resolved (Some [''c'']), Resolved (Some [''d''])])
   = \<lparr>items = [''a'', ''b'', ''c'', ''d''], isLoading = False, error = None, hasMore = True,
      currentPage = 4, source = [],
      calls = [(1, Resolved (Some [''a'', ''b''])), (2, Resolved (Some [''c''])),
               (3, Resolved (Some [''d'']))]\<rparr>"
  by (simp add: init_def defaults_def scripted_def loadMore_def loadMore_try_def
      await_fetchItems_def past_maxPage_def checkIfNeedsMoreContent_def short_viewport_def)

text \<open>
  Claim C1. Take a fresh loader and any sequence of awaited \<open>loadMore()\<close> calls,
  with or without runs of the two checks in between (the viewport-fill check is queued
  by every successful load). If the Fetch Source returned a non-empty list every time it
  was invoked, then \<open>items\<close> is the concatenation of the returned pages in the order
  of the invocations, \<open>currentPage\<close> is \<open>initialPage\<close> plus the number of successful
  non-empty fetches, which is the number of invocations, and the pages asked for were
  \<open>initialPage\<close>, \<open>initialPage + 1\<close>, and so on, each once.
\<close>

theorem loads_accumulate:
  assumes "list_all is_load ops"
    and "\<forall>c \<in> set (calls (run opts ops (init opts w))). returned_nonempty (snd c)"
  shows "items (run opts ops (init opts w))
      = concat (map (page_of \<circ> snd) (calls (run opts ops (init opts w)))) \<and>
    currentPage (run opts ops (init opts w))
      = initialPage opts
        + int (length (filter (returned_nonempty \<circ> snd) (calls (run opts ops (init opts w))))) \<and>
    currentPage (run opts ops (init opts w))
      = initialPage opts + int (length (calls (run opts ops (init opts w)))) \<and>
    map fst (calls (run opts ops (init opts w)))
      = [initialPage opts..currentPage (run opts ops (init opts w)) - 1]"
proof -
  let ?s = "run opts ops (init opts w)"
  from run_load_post [OF assms(1), of opts "init opts w"] obtain new where
    c: "calls ?s = new"
    and i: "items ?s = concat (map (page_of \<circ> snd) new)"
    and p: "currentPage ?s = initialPage opts + int (length (filter (returned_nonempty \<circ> snd) new))"
    and pg: "(\<forall>c \<in> set new. returned_nonempty (snd c)) \<longrightarrow>
       map fst new = [initialPage opts..initialPage opts + int (length new) - 1]"
    unfolding init_def by (simp del: o_apply)
  from assms(2) c have all: "\<forall>c \<in> set new. returned_nonempty (snd c)" by simp
  then have "filter (returned_nonempty \<circ> snd) new = new" by (simp add: filter_id_conv)
  with p have p': "currentPage ?s = initialPage opts + int (length new)" by simp
  from pg all p' have "map fst new = [initialPage opts..currentPage ?s - 1]" by simp
  with c i p p' show ?thesis by simp
qed

theorem loads_accumulate_witness:
  "list_all is_load [LoadMore, CheckIfNeedsMoreContent (Some short_viewport), LoadMore] \<and>
   items (run defaults [LoadMore, CheckIfNeedsMoreContent (Some short_viewport), LoadMore]
     (init defaults
        [Resolved (Some [''a'', ''b'']), Resolved (Some [''c'']), Resolved (Some [''d''])]))
     = [''a'', ''b'', ''c'', ''d''] \<and>
   currentPage (run defaults [LoadMore, CheckIfNeedsMoreContent (Some short_viewport), LoadMore]
     (init defaults
        [Resolved (Some [''a'', ''b'']), Resolved (Some [''c'']), Resolved (Some [''d''])]))
     = 1 + 3"
proof -
  let ?ops = "[LoadMore, CheckIfNeedsMoreContent (Some short_viewport), LoadMore]"
  let ?w = "[Resolved (Some [''a'', ''b'']), Resolved (Some [''c'']), Resolved (Some [''d''])]"
  have h1: "list_all is_load ?ops" by simp
  have h2: "\<forall>c \<in> set (calls (run defaults ?ops (init defaults ?w))). returned_nonempty (snd c)"
    unfolding three_loads by simp
  from loads_accumulate [OF h1 h2] h1 h2 show ?thesis
    unfolding three_loads by (simp add: defaults_def)
qed

subsection \<open>After an empty or absent page\<close>

lemma load_post_nothing:
  assumes "load_post opts s s'" and "c \<in> set (new_calls s s')" and "returned_nothing (snd c)"
  shows "\<not> hasMore s'"
  using assms(1)
proof (cases rule: load_post_cases)
  case same
  with assms(2) show ?thesis by (simp add: new_calls_def)
next
  case capped
  then show ?thesis by simp
next
  case (fetched r w')
  with assms(2,3) show ?thesis by (simp add: new_calls_def)
qed

lemma refetchAll_nothing:
  assumes "c \<in> set (new_calls s (snd (refetchAll opts s)))" and "returned_nothing (snd c)"
  shows "\<not> hasMore (snd (refetchAll opts s)) \<and> currentPage (snd (refetchAll opts s)) = fst c \<and>
    fst c < currentPage s"
proof (cases "isLoading s")
  case True
  with assms(1) show ?thesis by (simp add: refetchAll_in_flight new_calls_def)
next
  case False
  let ?s' = "snd (refetchAll opts s)"
  from False obtain thr new p' where
    c: "calls ?s' = calls s @ new"
    and ne: "\<forall>c \<in> set new. fst c < p' \<longrightarrow> returned_nonempty (snd c)"
    and lst: "\<forall>c \<in> set new. fst c = p' \<longrightarrow>
       (case thr of Some err \<Rightarrow> snd c = Rejected err | None \<Rightarrow> returned_nothing (snd c))"
    and pg: "map fst new = (if p' \<le> currentPage s - 1 then [initialPage opts..p']
                    else [initialPage opts..p' - 1])"
    and out: "case thr of
       Some err \<Rightarrow>
         p' \<le> currentPage s - 1 \<and> items ?s' = [] \<and> currentPage ?s' = currentPage s \<and>
         hasMore ?s' = hasMore s \<and>
         error ?s' = Some (caught ''An error occurred while refetching items'' err)
     | None \<Rightarrow>
         items ?s' = concat (map (page_of \<circ> snd) new) \<and> currentPage ?s' = p' \<and>
         error ?s' = None \<and>
         (if p' \<le> currentPage s - 1 then \<not> hasMore ?s'
          else hasMore ?s' \<and> (p' = initialPage opts \<or> p' = currentPage s))"
    by (rule refetchAll_post [of s opts]) blast
  from c assms(1) have mem: "c \<in> set new" by (simp add: new_calls_def)
  then have in_pg: "fst c \<in> set (map fst new)" by simp
  from ne mem assms(2) have nlt: "\<not> fst c < p'"
    using returned_nonempty_not_nothing by blast
  from in_pg pg nlt have eq: "fst c = p'" and le: "p' \<le> currentPage s - 1"
    by (auto split: if_splits)
  from lst mem eq assms(2) have "thr = None" by (cases thr) auto
  with out le eq show ?thesis by simp
qed

lemma exec_nothing:
  assumes "c \<in> set (new_calls s (exec opts x s))" and "returned_nothing (snd c)"
  shows "\<not> hasMore (exec opts x s)"
proof (cases x)
  case RefetchAll
  with assms refetchAll_nothing [of c s opts] show ?thesis by simp
next
  case Reset
  let ?s0 = "reset_cells opts s"
  have same_calls: "new_calls s s' = new_calls ?s0 s'" for s'
    by (simp add: new_calls_def reset_cells_def)
  show ?thesis
  proof (cases "loadOnMount opts")
    case True
    with Reset assms(1) have "c \<in> set (new_calls ?s0 (snd (loadMore opts ?s0)))"
      by (simp add: reset_def same_calls)
    moreover have "load_post opts ?s0 (snd (loadMore opts ?s0))" by (simp add: loadMore_post)
    ultimately have "\<not> hasMore (snd (loadMore opts ?s0))"
      using assms(2) by (intro load_post_nothing)
    with True Reset show ?thesis by (simp add: reset_def)
  next
    case False
    with Reset assms(1) show ?thesis by (simp add: reset_def new_calls_def reset_cells_def)
  qed
next
  case LoadMore
  with load_post_nothing [OF exec_load_post assms] show ?thesis by simp
next
  case (CheckScroll t)
  with load_post_nothing [OF exec_load_post assms] show ?thesis by simp
next
  case (CheckIfNeedsMoreContent t)
  with load_post_nothing [OF exec_load_post assms] show ?thesis by simp
qed

lemma exec_exhausted: "\<not> hasMore s \<Longrightarrow> is_load x \<Longrightarrow> exec opts x s = s"
  by (cases x) (simp_all add: loadMore_def checkScroll_def checkIfNeedsMoreContent_def
      split: option.splits)

lemma run_exhausted: "\<not> hasMore s \<Longrightarrow> list_all is_load ops \<Longrightarrow> run opts ops s = s"
  by (induction ops) (simp_all add: exec_exhausted)

lemma refetchAll_first_page:
  assumes "\<not> isLoading s" and "initialPage opts < currentPage s"
  shows "\<exists>r cs. new_calls s (snd (refetchAll opts s)) = (initialPage opts, r) # cs"
proof -
  let ?s' = "snd (refetchAll opts s)"
  from assms(1) obtain thr new p' where
    c: "calls ?s' = calls s @ new"
    and ip: "initialPage opts \<le> p'"
    and pg: "map fst new = (if p' \<le> currentPage s - 1 then [initialPage opts..p']
                    else [initialPage opts..p' - 1])"
    by (rule refetchAll_post [of s opts]) blast
  from pg ip assms(2) have "map fst new = initialPage opts # tl (map fst new)"
    by (auto simp: upto_rec1 [of "initialPage opts"] split: if_splits)
  then obtain r cs where "new = (initialPage opts, r) # cs"
    by (cases new) auto
  with c show ?thesis by (simp add: new_calls_def)
qed

lemma exhausted_feed_reached:
  "run defaults [LoadMore, LoadMore] (init defaults (Resolved (Some [''a'']) # Resolved None # w))
   = exhausted_feed w"
  by (simp add: exhausted_feed_def init_def defaults_def scripted_def loadMore_def
      loadMore_try_def await_fetchItems_def past_maxPage_def)

lemma exhausted_feed_refetched:
  "snd (refetchAll defaults (exhausted_feed [Resolved (Some [''a''])]))
   = \<lparr>items = [''a''], isLoading = False, error = None, hasMore = True,
      currentPage = 2, source = [],
      calls = [(1, Resolved (Some [''a''])), (2, Resolved None), (1, Resolved (Some [''a'']))]\<rparr>"
  by (simp add: exhausted_feed_def defaults_def scripted_def refetchAll_def refetchAll_try_def
      refetch_loop.simps await_fetchItems_def)

text \<open>
  Claim C2, as the code has it. When the Fetch Source returns an empty or absent result
  to an operation, \<open>hasMore\<close> is false when that operation completes. While
  \<open>hasMore\<close> is false, \<open>loadMore()\<close> and the two checks change nothing, so they do
  not invoke the Fetch Source. \<open>refetchAll()\<close> does not read \<open>hasMore\<close> before its
  loop: with no fetch in flight and at least one page loaded, it invokes the Fetch
  Source, for \<open>initialPage\<close> first.
\<close>

theorem exhausted_stops_loads:
  "((\<exists>c \<in> set (new_calls s (exec opts x s)). returned_nothing (snd c))
      \<longrightarrow> \<not> hasMore (exec opts x s)) \<and>
   (\<not> hasMore s \<and> list_all is_load ops \<longrightarrow> run opts ops s = s) \<and>
   (\<not> isLoading s \<and> initialPage opts < currentPage s \<longrightarrow>
      (\<exists>r cs. new_calls s (exec opts RefetchAll s) = (initialPage opts, r) # cs))"
  using exec_nothing [of _ s opts x] run_exhausted [of s ops opts]
    refetchAll_first_page [of s opts]
  by auto

theorem exhausted_stops_loads_witness:
  "(\<exists>c \<in> set (new_calls (init defaults [Resolved None :: string fetched])
        (exec defaults LoadMore (init defaults [Resolved None]))). returned_nothing (snd c)) \<and>
   \<not> hasMore (exec defaults LoadMore (init defaults [Resolved None :: string fetched])) \<and>
   \<not> hasMore (exhausted_feed []) \<and>
   list_all is_load [LoadMore, CheckScroll (Some short_viewport)] \<and>
   run defaults [LoadMore, CheckScroll (Some short_viewport)] (exhausted_feed [])
     = exhausted_feed [] \<and>
   \<not> isLoading (exhausted_feed [Resolved (Some [''a''])]) \<and>
   initialPage (defaults :: (string, string fetched list) options)
     < currentPage (exhausted_feed [Resolved (Some [''a''])]) \<and>
   new_calls (exhausted_feed [Resolved (Some [''a''])])
     (exec defaults RefetchAll (exhausted_feed [Resolved (Some [''a''])]))
     = [(1, Resolved (Some [''a'']))]"
proof -
  let ?d = "defaults :: (string, string fetched list) options"
  let ?s = "init ?d [Resolved None]"
  have h1: "\<exists>c \<in> set (new_calls ?s (exec ?d LoadMore ?s)). returned_nothing (snd c)"
    by (simp add: init_def defaults_def scripted_def loadMore_def loadMore_try_def
        await_fetchItems_def past_maxPage_def new_calls_def)
  have h2: "\<not> hasMore (exhausted_feed []) \<and>
    list_all is_load [LoadMore, CheckScroll (Some short_viewport)]"
    by (simp add: exhausted_feed_def)
  have h3: "\<not> isLoading (exhausted_feed [Resolved (Some [''a''])]) \<and>
    initialPage ?d < currentPage (exhausted_feed [Resolved (Some [''a''])])"
    by (simp add: exhausted_feed_def defaults_def)
  from exhausted_stops_loads [of ?s ?d LoadMore "[]"]
    exhausted_stops_loads [of "exhausted_feed []" ?d LoadMore
      "[LoadMore, CheckScroll (Some short_viewport)]"]
    exhausted_stops_loads [of "exhausted_feed [Resolved (Some [''a''])]" ?d LoadMore "[]"]
    h1 h2 h3
  show ?thesis
    unfolding exec.simps exhausted_feed_refetched
    by (simp add: new_calls_def) (simp add: exhausted_feed_def defaults_def)
qed

text \<open>
  Claim C2 as it was stated also keeps \<open>refetchAll()\<close> from invoking the Fetch Source
  once a page has come back absent. Page 1 returns \<open>[a]\<close> and page 2 \<open>null\<close>; after
  the two loads, \<open>refetchAll()\<close> invokes the Fetch Source for page 1 again, and
  \<open>hasMore\<close> is true afterwards.
\<close>

theorem refetchAll_after_exhaustion_counterexample:
  "(2, Resolved None) \<in> set (calls (run defaults [LoadMore, LoadMore]
      (init defaults [Resolved (Some [''a'']), Resolved None, Resolved (Some [''a''])]))) \<and>
   new_calls
     (run defaults [LoadMore, LoadMore]
        (init defaults [Resolved (Some [''a'']), Resolved None, Resolved (Some [''a''])]))
     (exec defaults RefetchAll (run defaults [LoadMore, LoadMore]
        (init defaults [Resolved (Some [''a'']), Resolved None, Resolved (Some [''a''])])))
     = [(1, Resolved (Some [''a'']))] \<and>
   hasMore (exec defaults RefetchAll (run defaults [LoadMore, LoadMore]
        (init defaults [Resolved (Some [''a'']), Resolved None, Resolved (Some [''a''])])))"
  unfolding exhausted_feed_reached exec.simps exhausted_feed_refetched
  by (simp add: exhausted_feed_def new_calls_def)

subsection \<open>How \<open>currentPage\<close> moves\<close>

lemma exec_load_page: "is_load x \<Longrightarrow> currentPage s \<le> currentPage (exec opts x s)"
  using exec_load_post [of x opts s]
  by (cases rule: load_post_cases) simp_all

lemma run_load_page: "list_all is_load ops \<Longrightarrow> currentPage s \<le> currentPage (run opts ops s)"
proof (induction ops arbitrary: s)
  case Nil
  show ?case by simp
next
  case (Cons x ops)
  then have "currentPage s \<le> currentPage (exec opts x s)"
    and "currentPage (exec opts x s) \<le> currentPage (run opts ops (exec opts x s))"
    by (simp_all add: exec_load_page)
  then show ?case by simp
qed

lemma refetchAll_page:
  assumes "\<forall>c \<in> set (new_calls s (snd (refetchAll opts s))). \<not> returned_nothing (snd c)"
  shows "currentPage s \<le> currentPage (snd (refetchAll opts s))"
proof (cases "isLoading s")
  case True
  then show ?thesis by (simp add: refetchAll_in_flight)
next
  case False
  let ?s' = "snd (refetchAll opts s)"
  from False obtain thr new p' where
    c: "calls ?s' = calls s @ new"
    and ip: "initialPage opts \<le> p'"
    and lst: "\<forall>c \<in> set new. fst c = p' \<longrightarrow>
       (case thr of Some err \<Rightarrow> snd c = Rejected err | None \<Rightarrow> returned_nothing (snd c))"
    and pg: "map fst new = (if p' \<le> currentPage s - 1 then [initialPage opts..p']
                    else [initialPage opts..p' - 1])"
    and out: "case thr of
       Some err \<Rightarrow>
         p' \<le> currentPage s - 1 \<and> items ?s' = [] \<and> currentPage ?s' = currentPage s \<and>
         hasMore ?s' = hasMore s \<and>
         error ?s' = Some (caught ''An error occurred while refetching items'' err)
     | None \<Rightarrow>
         items ?s' = concat (map (page_of \<circ> snd) new) \<and> currentPage ?s' = p' \<and>
         error ?s' = None \<and>
         (if p' \<le> currentPage s - 1 then \<not> hasMore ?s'
          else hasMore ?s' \<and> (p' = initialPage opts \<or> p' = currentPage s))"
    by (rule refetchAll_post [of s opts]) blast
  from c assms have none: "\<forall>c \<in> set new. \<not> returned_nothing (snd c)"
    by (simp add: new_calls_def)
  show ?thesis
  proof (cases thr)
    case (Some err)
    with out show ?thesis by simp
  next
    case None
    have "\<not> p' \<le> currentPage s - 1"
    proof
      assume le: "p' \<le> currentPage s - 1"
      with pg ip have "p' \<in> set (map fst new)" by simp
      then obtain c where "c \<in> set new" "fst c = p'" by auto
      with lst None none show False by auto
    qed
    with out None show ?thesis by simp
  qed
qed

lemma refetch_finds_nothing:
  "exec defaults RefetchAll (run defaults [LoadMore, LoadMore]
      (init defaults [Resolved (Some [''a'', ''b'']), Resolved (Some [''c'']), Resolved None]))
   = \<lparr>items = [], isLoading = False, error = None, hasMore = False,
      currentPage = 1, source = [],
      calls = [(1, Resolved (Some [''a'', ''b''])), (2, Resolved (Some [''c''])),
               (1, Resolved None)]\<rparr>"
  unfolding two_pages_loaded_reached exec.simps
  by (simp add: two_pages_loaded_def defaults_def scripted_def refetchAll_def refetchAll_try_def
      refetch_loop.simps await_fetchItems_def)

text \<open>
  Claim C3, as the code has it. \<open>currentPage\<close> never decreases across \<open>loadMore()\<close>
  and the two checks, in any sequence, nor across a \<open>refetchAll()\<close> in which no
  re-fetched page comes back empty or absent. When a re-fetched page does come back
  empty or absent, \<open>refetchAll()\<close> sets \<open>currentPage\<close> to that page, which is
  strictly below its value before. The assignments of \<open>reset()\<close> set it to \<open>initialPage\<close>.
\<close>

theorem currentPage_changes:
  "(list_all is_load ops \<longrightarrow> currentPage s \<le> currentPage (run opts ops s)) \<and>
   ((\<forall>c \<in> set (new_calls s (exec opts RefetchAll s)). \<not> returned_nothing (snd c))
      \<longrightarrow> currentPage s \<le> currentPage (exec opts RefetchAll s)) \<and>
   (\<forall>c \<in> set (new_calls s (exec opts RefetchAll s)).
      returned_nothing (snd c) \<longrightarrow>
        currentPage (exec opts RefetchAll s) = fst c \<and>
        currentPage (exec opts RefetchAll s) < currentPage s) \<and>
   currentPage (reset_cells opts s) = initialPage opts"
  using run_load_page [of ops s opts] refetchAll_page [of s opts] refetchAll_nothing [of _ s opts]
  by (simp add: reset_cells_def)

theorem currentPage_changes_witness:
  "list_all is_load [LoadMore, CheckIfNeedsMoreContent (Some short_viewport), LoadMore] \<and>
   currentPage (init defaults
       [Resolved (Some [''a'', ''b'']), Resolved (Some [''c'']), Resolved (Some [''d''])])
     \<le> currentPage (run defaults
       [LoadMore, CheckIfNeedsMoreContent (Some short_viewport), LoadMore]
       (init defaults
          [Resolved (Some [''a'', ''b'']), Resolved (Some [''c'']), Resolved (Some [''d''])])) \<and>
   currentPage (two_pages_loaded [Resolved (Some [''a'', ''b'']), Resolved (Some [''c''])])
     \<le> currentPage (exec defaults RefetchAll
       (two_pages_loaded [Resolved (Some [''a'', ''b'']), Resolved (Some [''c''])])) \<and>
   currentPage (exec defaults RefetchAll (two_pages_loaded [Resolved None])) = 1 \<and>
   currentPage (exec defaults RefetchAll (two_pages_loaded [Resolved None]))
     < currentPage (two_pages_loaded [Resolved None]) \<and>
   currentPage (two_pages_loaded [Resolved None]) = 3 \<and>
   currentPage (reset_cells defaults
       (two_pages_loaded [Resolved (Some [''a'', ''b'']), Resolved (Some [''c''])])) = 1"
proof -
  let ?d = "defaults :: (string, string fetched list) options"
  let ?ops = "[LoadMore, CheckIfNeedsMoreContent (Some short_viewport), LoadMore]"
  let ?w = "[Resolved (Some [''a'', ''b'']), Resolved (Some [''c'']), Resolved (Some [''d''])]"
  let ?s = "two_pages_loaded [Resolved (Some [''a'', ''b'']), Resolved (Some [''c''])]"
  have h1: "list_all is_load ?ops" by simp
  have r2: "exec ?d RefetchAll ?s = ?s\<lparr>source := [], calls := calls ?s @
      [(1, Resolved (Some [''a'', ''b''])), (2, Resolved (Some [''c'']))]\<rparr>"
    by (simp add: two_pages_loaded_def defaults_def scripted_def refetchAll_def refetchAll_try_def
      refetch_loop.simps await_fetchItems_def)
  have h2: "\<forall>c \<in> set (new_calls ?s (exec ?d RefetchAll ?s)). \<not> returned_nothing (snd c)"
    unfolding r2 by (simp add: new_calls_def)
  have r3: "exec ?d RefetchAll (two_pages_loaded [Resolved None])
    = (two_pages_loaded [Resolved None])\<lparr>items := [], hasMore := False, currentPage := 1,
        source := [], calls := calls (two_pages_loaded [Resolved None]) @ [(1, Resolved None)]\<rparr>"
    by (simp add: two_pages_loaded_def defaults_def scripted_def refetchAll_def refetchAll_try_def
      refetch_loop.simps await_fetchItems_def)
  have h3: "(1, Resolved None) \<in> set (new_calls (two_pages_loaded [Resolved None])
      (exec ?d RefetchAll (two_pages_loaded [Resolved None])))"
    unfolding r3 by (simp add: new_calls_def)
  from currentPage_changes [of ?ops "init ?d ?w" ?d]
    currentPage_changes [of "[]" ?s ?d]
    currentPage_changes [of "[]" "two_pages_loaded [Resolved None]" ?d]
    h1 h2 h3
  show ?thesis by (auto simp: defaults_def two_pages_loaded_def)
qed

text \<open>
  Claim C3 as it was stated has \<open>currentPage\<close> never decrease across \<open>refetchAll()\<close>.
  After pages 1 and 2 were loaded (\<open>currentPage = 3\<close>), a \<open>refetchAll()\<close> to which
  page 1 comes back \<open>null\<close> leaves \<open>currentPage = 1\<close>.
\<close>

theorem refetchAll_lowers_currentPage_counterexample:
  "currentPage (exec defaults RefetchAll (run defaults [LoadMore, LoadMore]
      (init defaults [Resolved (Some [''a'', ''b'']), Resolved (Some [''c'']), Resolved None])))
   < currentPage (run defaults [LoadMore, LoadMore]
      (init defaults [Resolved (Some [''a'', ''b'']), Resolved (Some [''c'']), Resolved None]))"
  unfolding refetch_finds_nothing unfolding two_pages_loaded_reached
  by (simp add: two_pages_loaded_def)

subsection \<open>\<open>maxPage\<close>\<close>

lemma pages_within_init: "pages_within opts N (init opts w)"
  by (simp add: pages_within_def init_def)

lemma pages_within_load:
  assumes "maxPage opts = Some N" and "pages_within opts N s" and "load_post opts s s'"
  shows "pages_within opts N s'"
  using assms(3)
proof (cases rule: load_post_cases)
  case same
  with assms(2) show ?thesis by simp
next
  case capped
  with assms(2) show ?thesis by (simp add: pages_within_def)
next
  case (fetched r w')
  from fetched(3) assms(1) have "currentPage s \<le> N" by (simp add: past_maxPage_def)
  with assms(2) fetched(5) show ?thesis by (auto simp: pages_within_def)
qed

lemma pages_within_refetchAll:
  assumes "pages_within opts N s"
  shows "pages_within opts N (snd (refetchAll opts s))"
proof (cases "isLoading s")
  case True
  with assms show ?thesis by (simp add: refetchAll_in_flight)
next
  case False
  let ?s' = "snd (refetchAll opts s)"
  from False obtain thr new p' where
    c: "calls ?s' = calls s @ new"
    and ip: "initialPage opts \<le> p'"
    and pg: "map fst new = (if p' \<le> currentPage s - 1 then [initialPage opts..p']
                    else [initialPage opts..p' - 1])"
    and out: "case thr of
       Some err \<Rightarrow>
         p' \<le> currentPage s - 1 \<and> items ?s' = [] \<and> currentPage ?s' = currentPage s \<and>
         hasMore ?s' = hasMore s \<and>
         error ?s' = Some (caught ''An error occurred while refetching items'' err)
     | None \<Rightarrow>
         items ?s' = concat (map (page_of \<circ> snd) new) \<and> currentPage ?s' = p' \<and>
         error ?s' = None \<and>
         (if p' \<le> currentPage s - 1 then \<not> hasMore ?s'
          else hasMore ?s' \<and> (p' = initialPage opts \<or> p' = currentPage s))"
    by (rule refetchAll_post [of s opts]) blast
  from assms have inv: "initialPage opts \<le> currentPage s"
    "currentPage s \<le> N + 1 \<or> currentPage s = initialPage opts"
    "\<forall>c \<in> set (calls s). initialPage opts \<le> fst c \<and> fst c \<le> N"
    by (simp_all add: pages_within_def)
  have p': "p' \<le> currentPage s - 1 \<or> p' = initialPage opts \<or> p' = currentPage s"
    using out by (cases thr) (auto split: if_splits)
  have page: "currentPage ?s' = p' \<or> currentPage ?s' = currentPage s"
    using out by (cases thr) auto
  have "set (map fst new) \<subseteq> {initialPage opts..N}"
    using pg p' ip inv(1,2) by (auto split: if_splits)
  then have new: "\<forall>c \<in> set new. initialPage opts \<le> fst c \<and> fst c \<le> N" by auto
  from page p' ip inv new c show ?thesis
    unfolding pages_within_def by auto
qed

lemma pages_within_exec:
  assumes "maxPage opts = Some N" and "pages_within opts N s" and "x \<noteq> Reset"
  shows "pages_within opts N (exec opts x s)"
proof (cases "is_load x")
  case True
  from pages_within_load [OF assms(1,2) exec_load_post [OF True]] show ?thesis .
next
  case False
  with assms(3) have "x = RefetchAll" by (cases x) simp_all
  with pages_within_refetchAll [OF assms(2)] show ?thesis by simp
qed

lemma pages_within_run:
  assumes "maxPage opts = Some N" and "Reset \<notin> set ops" and "pages_within opts N s"
  shows "pages_within opts N (run opts ops s)"
  using assms(2,3)
proof (induction ops arbitrary: s)
  case Nil
  then show ?case by simp
next
  case (Cons x ops)
  from Cons.prems have "x \<noteq> Reset" and "Reset \<notin> set ops" by auto
  with Cons.IH [of "exec opts x s"] pages_within_exec [OF assms(1) Cons.prems(2)]
  show ?case by simp
qed

lemma loads_within_init: "loads_within opts N (init opts w)"
  by (simp add: loads_within_def answered_def init_def)

lemma loads_within_load:
  assumes "maxPage opts = Some N" and "loads_within opts N s" and "load_post opts s s'"
  shows "loads_within opts N s'"
  using assms(3)
proof (cases rule: load_post_cases)
  case same
  with assms(2) show ?thesis by simp
next
  case capped
  with assms(2) show ?thesis by (simp add: loads_within_def answered_def)
next
  case (fetched r w')
  from fetched(3) assms(1) have le: "currentPage s \<le> N" by (simp add: past_maxPage_def)
  from assms(2) fetched(2) have a: "answered s \<le> currentPage s - initialPage opts"
    by (simp add: loads_within_def)
  show ?thesis
  proof (cases r rule: returned_cases)
    case (rejected err)
    with fetched(5) assms(2) fetched(2) show ?thesis
      by (simp add: loads_within_def answered_def)
  next
    case absent
    then have "\<not> rejected r" by (cases r rule: returned_nothing.cases) auto
    with fetched(5) have "answered s' = answered s + 1" by (simp add: answered_def)
    with absent fetched(5) a le show ?thesis by (simp add: loads_within_def)
  next
    case (page xs)
    with fetched(5) have "answered s' = answered s + 1" "currentPage s' = currentPage s + 1"
      by (simp_all add: answered_def)
    with a le show ?thesis by (simp add: loads_within_def)
  qed
qed

lemma loads_within_run:
  assumes "maxPage opts = Some N" and "list_all is_load ops" and "loads_within opts N s"
  shows "loads_within opts N (run opts ops s)"
  using assms(2,3)
proof (induction ops arbitrary: s)
  case Nil
  then show ?case by simp
next
  case (Cons x ops)
  from Cons.prems have x: "is_load x" and ops: "list_all is_load ops" by simp_all
  from loads_within_load [OF assms(1) Cons.prems(2) exec_load_post [OF x]]
  have "loads_within opts N (exec opts x s)" .
  from Cons.IH [OF ops this] show ?case by simp
qed

lemma retried_page:
  "calls (run (defaults_maxPage 1) [LoadMore, LoadMore]
     (init (defaults_maxPage 1) [Rejected ThrownOther :: string fetched, Rejected ThrownOther]))
   = [(1, Rejected ThrownOther), (1, Rejected ThrownOther)]"
  by (simp add: defaults_maxPage_def init_def defaults_def scripted_def loadMore_def
      loadMore_try_def await_fetchItems_def past_maxPage_def)

lemma refetched_page:
  "calls (run (defaults_maxPage 1) [LoadMore, RefetchAll]
     (init (defaults_maxPage 1) [Resolved (Some [''a'']), Resolved (Some [''a''])]))
   = [(1, Resolved (Some [''a''])), (1, Resolved (Some [''a'']))]"
  by (simp add: defaults_maxPage_def init_def defaults_def scripted_def loadMore_def
      loadMore_try_def await_fetchItems_def past_maxPage_def refetchAll_def refetchAll_try_def
      refetch_loop.simps)

text \<open>
  Claim C7, as the code has it. With \<open>maxPage = N\<close> and no \<open>reset()\<close>, every
  invocation of the Fetch Source asks for a page from \<open>initialPage\<close> to \<open>N\<close>, so at
  most \<open>N - initialPage + 1\<close> different pages are ever asked for; and over sequences of
  \<open>loadMore()\<close> and the two checks, the invocations that do not fail number at most
  \<open>N - initialPage + 1\<close>.
\<close>

theorem maxPage_bounds:
  assumes "maxPage opts = Some N" and "Reset \<notin> set ops"
  shows "(\<forall>c \<in> set (calls (run opts ops (init opts w))).
            initialPage opts \<le> fst c \<and> fst c \<le> N) \<and>
    card (fst ` set (calls (run opts ops (init opts w)))) \<le> nat (N - initialPage opts + 1) \<and>
    (list_all is_load ops \<longrightarrow>
       length (filter (\<lambda>c. \<not> rejected (snd c)) (calls (run opts ops (init opts w))))
         \<le> nat (N - initialPage opts + 1))"
proof -
  let ?s = "run opts ops (init opts w)"
  from pages_within_run [OF assms pages_within_init]
  have in_range: "\<forall>c \<in> set (calls ?s). initialPage opts \<le> fst c \<and> fst c \<le> N"
    by (simp add: pages_within_def)
  then have "fst ` set (calls ?s) \<subseteq> {initialPage opts..N}" by auto
  then have "card (fst ` set (calls ?s)) \<le> card {initialPage opts..N}"
    by (intro card_mono) simp_all
  then have distinct_pages: "card (fst ` set (calls ?s)) \<le> nat (N - initialPage opts + 1)"
    by simp
  have "length (filter (\<lambda>c. \<not> rejected (snd c)) (calls ?s)) \<le> nat (N - initialPage opts + 1)"
    if "list_all is_load ops"
  proof -
    from loads_within_run [OF assms(1) that loads_within_init]
    have "answered ?s \<le> max 0 (N - initialPage opts + 1)" by (simp add: loads_within_def)
    then show ?thesis by (simp add: answered_def)
  qed
  with in_range distinct_pages show ?thesis by blast
qed

theorem maxPage_bounds_witness:
  "maxPage (defaults_maxPage 2 :: (string, string fetched list) options) = Some 2 \<and>
   card (fst ` set (calls (run (defaults_maxPage 2)
       [LoadMore, LoadMore, RefetchAll, LoadMore, CheckScroll (Some short_viewport)]
       (init (defaults_maxPage 2)
          [Resolved (Some [''a'', ''b'']), Resolved (Some [''c'']),
           Resolved (Some [''a'', ''b'']), Resolved (Some [''c'']), Resolved (Some [''d''])]))))
     \<le> 2 \<and>
   length (filter (\<lambda>c. \<not> rejected (snd c)) (calls (run (defaults_maxPage 2)
       [LoadMore, LoadMore, LoadMore, CheckScroll (Some short_viewport)]
       (init (defaults_maxPage 2)
          [Rejected ThrownOther, Resolved (Some [''a'', ''b'']), Resolved (Some [''c'']),
           Resolved (Some [''d''])]))))
     \<le> 2"
proof -
  let ?d = "defaults_maxPage 2 :: (string, string fetched list) options"
  have h1: "maxPage ?d = Some 2" by (simp add: defaults_maxPage_def)
  have h2: "Reset \<notin> set [LoadMore, LoadMore, RefetchAll, LoadMore, CheckScroll (Some short_viewport)]"
    "Reset \<notin> set [LoadMore, LoadMore, LoadMore, CheckScroll (Some short_viewport)]"
    "list_all is_load [LoadMore, LoadMore, LoadMore, CheckScroll (Some short_viewport)]"
    by simp_all
  from maxPage_bounds [OF h1 h2(1)] maxPage_bounds [OF h1 h2(2)] h1 h2(3)
  show ?thesis by (simp add: defaults_maxPage_def defaults_def)
qed

text \<open>
  Claim C7 as it was stated bounds the number of invocations. With \<open>maxPage = 1\<close> and
  \<open>initialPage = 1\<close> the bound is 1; two \<open>loadMore()\<close> calls whose fetches fail
  invoke the Fetch Source twice for page 1, and so do a \<open>loadMore()\<close> followed by a
  \<open>refetchAll()\<close>.
\<close>

theorem maxPage_fetch_count_counterexample:
  "nat (1 - initialPage (defaults_maxPage 1 :: (string, string fetched list) options) + 1)
     < length (calls (run (defaults_maxPage 1) [LoadMore, LoadMore]
         (init (defaults_maxPage 1) [Rejected ThrownOther :: string fetched, Rejected ThrownOther]))) \<and>
   nat (1 - initialPage (defaults_maxPage 1 :: (string, string fetched list) options) + 1)
     < length (calls (run (defaults_maxPage 1) [LoadMore, RefetchAll]
         (init (defaults_maxPage 1) [Resolved (Some [''a'']), Resolved (Some [''a''])])))"
  unfolding retried_page refetched_page by (simp add: defaults_maxPage_def defaults_def)

subsection \<open>The throttled scroll handler\<close>

lemma spaced_snoc:
  "spaced d (xs @ [x]) = (spaced d xs \<and> (xs \<noteq> [] \<longrightarrow> d \<le> x - last xs))"
  by (induction d xs rule: spaced.induct) auto

lemma spaced_head:
  assumes "spaced d (x # xs)" and "0 \<le> d"
  shows "\<forall>y \<in> set xs. d \<le> y - x"
  using assms
proof (induction xs arbitrary: x)
  case Nil
  show ?case by simp
next
  case (Cons y ys)
  from Cons.prems have xy: "d \<le> y - x" and tl: "spaced d (y # ys)" by simp_all
  from Cons.IH [OF tl Cons.prems(2)] have "\<forall>z \<in> set ys. d \<le> z - y" .
  with xy Cons.prems(2) show ?case by auto
qed

lemma spaced_tl: "spaced d (x # xs) \<Longrightarrow> spaced d xs"
  by (cases xs) simp_all

lemma spaced_window:
  assumes "spaced d xs" and "0 \<le> d"
  shows "length (filter (\<lambda>t. a \<le> t \<and> t < a + d) xs) \<le> 1"
  using assms(1)
proof (induction xs)
  case Nil
  show ?case by simp
next
  case (Cons x xs)
  from Cons.prems have tl: "spaced d xs" by (rule spaced_tl)
  show ?case
  proof (cases "a \<le> x \<and> x < a + d")
    case False
    with Cons.IH [OF tl] show ?thesis by auto
  next
    case True
    from spaced_head [OF Cons.prems assms(2)] True
    have "\<forall>y \<in> set xs. \<not> (a \<le> y \<and> y < a + d)" by fastforce
    then have "filter (\<lambda>t. a \<le> t \<and> t < a + d) xs = []" by (simp add: filter_empty_conv)
    with True show ?thesis by simp
  qed
qed

lemma throttle_inv_init: "throttle_inv limit t (throttle st)"
  by (simp add: throttle_inv_def throttle_def)

lemma throttle_inv_call:
  assumes "throttle_inv limit t th" and "0 < t" and "t \<le> now"
  shows "throttle_inv limit now (throttled_call func limit page now th)"
proof (cases "lastRan th")
  case None
  with assms show ?thesis
    by (simp add: throttle_inv_def throttled_call_def apply_func_def)
next
  case (Some ran_at)
  with assms(1) have "ran_at \<noteq> 0" by (simp add: throttle_inv_def)
  with Some assms show ?thesis
    by (auto simp: throttle_inv_def throttled_call_def setTimeout_def clearTimeout_def
        split: option.splits)
qed

lemma throttle_inv_timeout:
  assumes "throttle_inv limit t th" and "0 < t" and "t \<le> now" and "now \<le> now'"
  shows "throttle_inv limit now' (timeout_callback func limit i page now now' th)"
proof (cases "timeouts th i")
  case None
  with assms show ?thesis
    by (auto simp: throttle_inv_def timeout_callback_def split: option.splits)
next
  case pending: (Some delay)
  show ?thesis
  proof (cases "lastRan th")
    case None
    with pending assms show ?thesis
      by (simp add: throttle_inv_def timeout_callback_def)
  next
    case (Some ran_at)
    show ?thesis
    proof (cases "limit \<le> now - ran_at")
      case False
      with Some pending assms show ?thesis
        by (auto simp: throttle_inv_def timeout_callback_def)
    next
      case True
      with Some pending assms show ?thesis
        by (auto simp: throttle_inv_def timeout_callback_def apply_func_def spaced_snoc)
    qed
  qed
qed

lemma throttle_inv_play:
  assumes "throttle_inv limit t th" and "0 < t" and "chronological t evs"
  shows "\<exists>t'. throttle_inv limit t' (play func limit evs th)"
  using assms
proof (induction evs arbitrary: t th)
  case Nil
  then show ?case by auto
next
  case (Cons ev evs)
  show ?case
  proof (cases ev)
    case (Scroll page now)
    with Cons.prems have le: "t \<le> now" and rest: "chronological now evs" by simp_all
    from throttle_inv_call [OF Cons.prems(1,2) le]
    have "throttle_inv limit now (handle func limit ev th)" using Scroll by simp
    from Cons.IH [OF this _ rest] Cons.prems(2) le show ?thesis by simp
  next
    case (Timeout i page now now')
    with Cons.prems have le: "t \<le> now" "now \<le> now'" and rest: "chronological now' evs"
      by simp_all
    from throttle_inv_timeout [OF Cons.prems(1,2) le]
    have "throttle_inv limit now' (handle func limit ev th)" using Timeout by simp
    from Cons.IH [OF this _ rest] Cons.prems(2) le show ?thesis by simp
  qed
qed

lemma first_burst:
  "applied (throttledCheckScroll defaults (scroll_burst 1000 @ [Timeout 9 (Some short_viewport) 1200 1201])
     (throttle (init defaults [Resolved (Some [''a''])])))
   = [1000, 1200]"
  by (simp add: scroll_burst_def throttledCheckScroll_def throttle_def throttled_call_def
      timeout_callback_def apply_func_def setTimeout_def clearTimeout_def)

lemma later_burst:
  "applied (throttledCheckScroll defaults (Scroll (Some short_viewport) 1000 # scroll_burst 5000)
     (throttle (init defaults [Resolved (Some [''a''])])))
   = [1000]"
  by (simp add: scroll_burst_def throttledCheckScroll_def throttle_def throttled_call_def
      timeout_callback_def apply_func_def setTimeout_def clearTimeout_def)

text \<open>
  Claim C9, as the code has it. Start from a fresh throttled handler and let any
  scroll events and timeouts happen, the clock readings positive and never decreasing.
  Then any two executions of the proximity check are at least 200 ms apart, so at most
  one falls in any window of 200 ms, whatever burst of events arrives, and a pending
  timeout is always the one \<open>lastFunc\<close> names, so at most one is pending. The very
  first call executes the check at once. A call made after an execution (\<open>lastRan\<close>
  set), be it the first of a burst, executes nothing itself: it cancels the pending
  timeout and sets one with the delay \<open>200 - (now - lastRan)\<close>.
\<close>

theorem throttledCheckScroll_spacing:
  "(chronological 1 evs \<longrightarrow>
      spaced 200 (applied (throttledCheckScroll opts evs (throttle s))) \<and>
      length (filter (\<lambda>t. a \<le> t \<and> t < a + 200)
        (applied (throttledCheckScroll opts evs (throttle s)))) \<le> 1 \<and>
      (\<forall>i d. timeouts (throttledCheckScroll opts evs (throttle s)) i = Some d \<longrightarrow>
         lastFunc (throttledCheckScroll opts evs (throttle s)) = Some i)) \<and>
   applied (throttledCheckScroll opts [Scroll page now] (throttle s)) = [now] \<and>
   (lastRan th = Some ran_at \<and> ran_at \<noteq> 0 \<longrightarrow>
      applied (throttledCheckScroll opts [Scroll page now] th) = applied th \<and>
      target (throttledCheckScroll opts [Scroll page now] th) = target th \<and>
      lastFunc (throttledCheckScroll opts [Scroll page now] th) = Some (next_id th) \<and>
      timeouts (throttledCheckScroll opts [Scroll page now] th) (next_id th)
        = Some (200 - (now - ran_at)) \<and>
      (\<forall>i. lastFunc th = Some i \<and> i \<noteq> next_id th \<longrightarrow>
         timeouts (throttledCheckScroll opts [Scroll page now] th) i = None))"
proof -
  have 1: "spaced 200 (applied (throttledCheckScroll opts evs (throttle s))) \<and>
      length (filter (\<lambda>t. a \<le> t \<and> t < a + 200)
        (applied (throttledCheckScroll opts evs (throttle s)))) \<le> 1 \<and>
      (\<forall>i d. timeouts (throttledCheckScroll opts evs (throttle s)) i = Some d \<longrightarrow>
         lastFunc (throttledCheckScroll opts evs (throttle s)) = Some i)"
    if "chronological 1 evs"
  proof -
    have "throttle_inv 200 1 (throttle s)" by (rule throttle_inv_init)
    from throttle_inv_play [OF this _ that, where func = "checkScroll opts"]
    obtain t' where inv: "throttle_inv 200 t' (throttledCheckScroll opts evs (throttle s))"
      by (auto simp: throttledCheckScroll_def)
    then have sp: "spaced 200 (applied (throttledCheckScroll opts evs (throttle s)))"
      by (simp add: throttle_inv_def)
    from spaced_window [OF sp, of a] inv show ?thesis by (simp add: throttle_inv_def)
  qed
  have 2: "applied (throttledCheckScroll opts [Scroll page now] (throttle s)) = [now]"
    by (simp add: throttledCheckScroll_def throttled_call_def throttle_def apply_func_def)
  have 3: "applied (throttledCheckScroll opts [Scroll page now] th) = applied th \<and>
      target (throttledCheckScroll opts [Scroll page now] th) = target th \<and>
      lastFunc (throttledCheckScroll opts [Scroll page now] th) = Some (next_id th) \<and>
      timeouts (throttledCheckScroll opts [Scroll page now] th) (next_id th)
        = Some (200 - (now - ran_at)) \<and>
      (\<forall>i. lastFunc th = Some i \<and> i \<noteq> next_id th \<longrightarrow>
         timeouts (throttledCheckScroll opts [Scroll page now] th) i = None)"
    if "lastRan th = Some ran_at" "ran_at \<noteq> 0"
    using that
    by (auto simp: throttledCheckScroll_def throttled_call_def setTimeout_def clearTimeout_def
        split: option.splits)
  from 1 2 3 show ?thesis by blast
qed

theorem throttledCheckScroll_spacing_witness:
  "chronological 1 (scroll_burst 1000 @ [Timeout 9 (Some short_viewport) 1200 1201]) \<and>
   spaced 200 (applied (throttledCheckScroll defaults
     (scroll_burst 1000 @ [Timeout 9 (Some short_viewport) 1200 1201])
     (throttle (init defaults [Resolved (Some [''a''])])))) \<and>
   applied (throttledCheckScroll defaults
     (scroll_burst 1000 @ [Timeout 9 (Some short_viewport) 1200 1201])
     (throttle (init defaults [Resolved (Some [''a''])]))) = [1000, 1200]"
proof -
  let ?evs = "scroll_burst 1000 @ [Timeout 9 (Some short_viewport) 1200 1201]"
  have h: "chronological 1 ?evs" by (simp add: scroll_burst_def)
  from throttledCheckScroll_spacing [of ?evs defaults "init defaults [Resolved (Some [''a''])]"]
    h first_burst
  show ?thesis by simp
qed

text \<open>
  Claim C9 as it was stated has the first call of every burst execute immediately. A
  burst of ten scroll events within 45 ms that arrives four seconds after the first
  execution executes nothing in any of its calls: the executions after the burst are
  those before it.
\<close>

theorem later_burst_counterexample:
  "applied (throttledCheckScroll defaults (Scroll (Some short_viewport) 1000 # scroll_burst 5000)
     (throttle (init defaults [Resolved (Some [''a''])])))
   = applied (throttledCheckScroll defaults [Scroll (Some short_viewport) 1000]
     (throttle (init defaults [Resolved (Some [''a''])])))"
  unfolding later_burst
  by (simp add: throttledCheckScroll_def throttle_def throttled_call_def apply_func_def)

end
